theory Spec2Isabelle
  imports Main "HOL-Library.AList"
begin

section \<open>Data model of the Paper coordinator\<close>

text \<open>
  The embedding follows \<^verbatim>\<open>Paper.base.ts\<close> (class \<^verbatim>\<open>Paper\<close>) and the
  \<^verbatim>\<open>PaperEvent\<close> class. Coordinates are integers (the configuration asks for an
  integer grid size). The two registries and the listener table are JavaScript objects
  used as dictionaries; they are association lists here, in insertion order (the order
  of \<^verbatim>\<open>Object.keys\<close> for ids that are not integers), read with \<open>map_of\<close>, written
  with \<open>AList.update\<close> and \<open>AList.delete\<close>. A lookup finds what was stored, nothing
  else: ids that name a property every JavaScript object inherits (such as
  \<^verbatim>\<open>toString\<close>) are left out.
  The DOM (the svg element, its children) is not part of the state, except for the
  \<^verbatim>\<open>transform\<close> attribute a node handle carries, which is the handle position.
\<close>

record ICoordinates =
  cx :: int
  cy :: int

datatype edgeEndPoint = NodeRef string | LiteralPoint ICoordinates

datatype PaperError = E_DUP_ID | E_NO_ID | E_INV_ELEM | TypeError

datatype paperEventType =
  AddNodeEvt | MoveNodeEvt | RemoveNodeEvt | AddEdgeEvt | MoveEdgeEvt | RemoveEdgeEvt
  | PaperInitEvt | UpdateActiveItemEvt

text \<open>
  A node as the caller hands it in. \<open>in_element\<close> tells whether the handle built by the
  component answers \<^verbatim>\<open>getNodeElement()\<close> with an element (a truthy value).
\<close>

record IPaperInputNode =
  in_id :: string
  in_coords :: ICoordinates
  in_element :: bool

record IPaperStoredNode =
  n_id :: string
  n_coords :: ICoordinates
  n_element :: bool
  n_transform :: "ICoordinates option"

record IPaperInputEdge =
  ie_id :: string
  ie_source :: edgeEndPoint
  ie_target :: edgeEndPoint
  ie_coords :: "ICoordinates list"
  ie_element :: bool

record IPaperStoredEdge =
  e_id :: string
  e_source :: edgeEndPoint
  e_target :: edgeEndPoint
  e_coords :: "ICoordinates list"

text \<open>An active item is an object with string values: its keys in order, with their values.\<close>

type_synonym IActiveItem = "(string \<times> string) list"

text \<open>
  What a listener may do with the event it receives and with the paper behind it:
  the three methods of the event, and registering or removing a listener.
  A listener is a function object: \<open>lid\<close> is its reference, \<open>body\<close> what it does
  when called. Two listeners are the same listener when their references are equal.
  A listener that calls a mutation of the paper (\<^verbatim>\<open>addNode\<close>, \<^verbatim>\<open>removeNode\<close>, ...)
  from inside a firing is not covered.
\<close>

datatype action =
  DefaultAction
  | PreventDefault
  | StopPropagation
  | AddListener paperEventType listener
  | RemoveListener paperEventType listener
and listener = Listener (lid: nat) (body: "action list")

text \<open>
  What happened to one event, in order (a record kept for the statements, the code has
  no such field): a listener received it, a listener called one of its actions, the
  listener loop ended, the deferred closure ran.
\<close>

datatype entry = Invoked listener | Call action | LoopDone | RanDefault

record Paper =
  nodes :: "(string \<times> IPaperStoredNode) list"
  edges :: "(string \<times> IPaperStoredEdge) list"
  activeItem :: "IActiveItem option"
  listeners :: "(paperEventType \<times> listener list) list"
  gridSize :: int
  fired :: "(paperEventType \<times> entry list) list"

text \<open>
  \<open>fired\<close> is the log of the events fired so far, each with what happened to it,
  appended when its firing ends (so a nested firing is logged before the one that
  caused it). It is only written, never read, by the operations.
\<close>

type_synonym 'a result = "PaperError option \<times> 'a"

record PaperEvent =
  eventType :: paperEventType
  canPropagate :: bool
  closure :: "(Paper \<Rightarrow> Paper result) option"
  hist :: "entry list"

definition newPaperEvent :: "paperEventType \<Rightarrow> (Paper \<Rightarrow> Paper result) \<Rightarrow> PaperEvent" where
  "newPaperEvent ty f = \<lparr>eventType = ty, canPropagate = True, closure = Some f, hist = []\<rparr>"

definition newPaper :: "int \<Rightarrow> Paper" where
  "newPaper g = \<lparr>nodes = [], edges = [], activeItem = None, listeners = [], gridSize = g,
     fired = []\<rparr>"

section \<open>Geometry helpers\<close>

text \<open>
  Modelled from the spec: \<^verbatim>\<open>roundToNearest\<close> and \<^verbatim>\<open>areCoordsEqual\<close> are
  imported by \<^verbatim>\<open>Paper.base.ts\<close> from the utilities, which are not among the source
  files. The spec: "snaps value to the nearest multiple of unit, floored at minimum;
  unit=0 returns value unchanged", minimum defaulting to the unit; and "exact
  component-wise equality".
\<close>

definition roundToNearest3 :: "int \<Rightarrow> int \<Rightarrow> int \<Rightarrow> int" where
  "roundToNearest3 v unit minimum =
     (if unit = 0 then v else max (((2 * v + unit) div (2 * unit)) * unit) minimum)"

definition roundToNearest :: "int \<Rightarrow> int \<Rightarrow> int" where
  "roundToNearest v unit = roundToNearest3 v unit unit"

definition areCoordsEqual :: "ICoordinates \<Rightarrow> ICoordinates \<Rightarrow> bool" where
  "areCoordsEqual a b = (cx a = cx b \<and> cy a = cy b)"

section \<open>Listeners\<close>

definition listenersOf :: "Paper \<Rightarrow> paperEventType \<Rightarrow> listener list" where
  "listenersOf s ty = (case map_of (listeners s) ty of None \<Rightarrow> [] | Some ls \<Rightarrow> ls)"

text \<open>
  \<^verbatim>\<open>addListener\<close>: the list for the type is created when undefined, and the listener is
  pushed when no entry is the same function.
\<close>

definition addListener :: "paperEventType \<Rightarrow> listener \<Rightarrow> Paper \<Rightarrow> Paper" where
  "addListener ty l s =
     (let ls = listenersOf s ty in
      s\<lparr>listeners := AList.update ty
           (if list_all (\<lambda>c. lid c \<noteq> lid l) ls then ls @ [l] else ls) (listeners s)\<rparr>)"

text \<open>
  \<^verbatim>\<open>Array.prototype.findIndex\<close> answers -1 when no element satisfies the test, and
  \<^verbatim>\<open>splice(start, 1)\<close> counts a negative start from the end of the array.
\<close>

fun findIndex :: "('a \<Rightarrow> bool) \<Rightarrow> 'a list \<Rightarrow> int" where
  "findIndex p [] = -1"
| "findIndex p (x # xs) =
     (if p x then 0 else (let i = findIndex p xs in if i < 0 then -1 else i + 1))"

definition splice1 :: "int \<Rightarrow> 'a list \<Rightarrow> 'a list" where
  "splice1 start xs =
     (let n = int (length xs);
          st = nat (if start < 0 then max (n + start) 0 else min start n)
      in take st xs @ drop (Suc st) xs)"

definition removeListener :: "paperEventType \<Rightarrow> listener \<Rightarrow> Paper \<Rightarrow> Paper" where
  "removeListener ty l s =
     (case map_of (listeners s) ty of
        None \<Rightarrow> s
      | Some ls \<Rightarrow>
          if ls \<noteq> [] then
            s\<lparr>listeners := AList.update ty
                 (splice1 (findIndex (\<lambda>c. lid c = lid l) ls) ls) (listeners s)\<rparr>
          else s)"

section \<open>The event pipeline\<close>

definition noted :: "entry \<Rightarrow> PaperEvent \<Rightarrow> PaperEvent" where
  "noted x e = e\<lparr>hist := hist e @ [x]\<rparr>"

text \<open>
  \<^verbatim>\<open>PaperEvent.defaultAction()\<close>: runs the closure when there is one, then clears it.
  A closure that throws leaves the method before the clearing; the exception goes up.
\<close>

definition defaultAction :: "PaperEvent \<Rightarrow> Paper \<Rightarrow> (PaperEvent \<times> Paper) result" where
  "defaultAction e s =
     (case closure e of
        None \<Rightarrow> (None, e, s)
      | Some f \<Rightarrow>
          (case f s of
             (Some err, s') \<Rightarrow> (Some err, noted RanDefault e, s')
           | (None, s') \<Rightarrow> (None, (noted RanDefault e)\<lparr>closure := None\<rparr>, s')))"

definition preventDefault :: "PaperEvent \<Rightarrow> PaperEvent" where
  "preventDefault e = e\<lparr>closure := None\<rparr>"

definition stopPropagation :: "PaperEvent \<Rightarrow> PaperEvent" where
  "stopPropagation e = e\<lparr>canPropagate := False\<rparr>"

text \<open>Calling a listener: its actions run in order; an exception ends the call.\<close>

fun callListener :: "action list \<Rightarrow> PaperEvent \<Rightarrow> Paper \<Rightarrow> (PaperEvent \<times> Paper) result" where
  "callListener [] e s = (None, e, s)"
| "callListener (a # as) e s =
     (case a of
        DefaultAction \<Rightarrow>
          (case defaultAction (noted (Call a) e) s of
             (Some err, e', s') \<Rightarrow> (Some err, e', s')
           | (None, e', s') \<Rightarrow> callListener as e' s')
      | PreventDefault \<Rightarrow> callListener as (preventDefault (noted (Call a) e)) s
      | StopPropagation \<Rightarrow> callListener as (stopPropagation (noted (Call a) e)) s
      | AddListener ty l \<Rightarrow> callListener as (noted (Call a) e) (addListener ty l s)
      | RemoveListener ty l \<Rightarrow> callListener as (noted (Call a) e) (removeListener ty l s))"

text \<open>
  \<^verbatim>\<open>Array.prototype.forEach\<close> reads the length once, then visits the indices below it
  that the array still has when their turn comes, reading each element at that moment.
  The array is the one the paper holds for the type: \<^verbatim>\<open>addListener\<close> pushes onto it and
  \<^verbatim>\<open>removeListener\<close> splices it in place. \<open>forEachListener n k\<close> has \<open>n\<close>
  indices left to visit, the next being \<open>k\<close>.
\<close>

fun forEachListener :: "nat \<Rightarrow> nat \<Rightarrow> PaperEvent \<Rightarrow> Paper \<Rightarrow> (PaperEvent \<times> Paper) result" where
  "forEachListener 0 k e s = (None, e, s)"
| "forEachListener (Suc n) k e s =
     (let ls = listenersOf s (eventType e) in
      if k < length ls \<and> canPropagate e then
        (case callListener (body (ls ! k)) (noted (Invoked (ls ! k)) e) s of
           (Some err, e', s') \<Rightarrow> (Some err, e', s')
         | (None, e', s') \<Rightarrow> forEachListener n (Suc k) e' s')
      else forEachListener n (Suc k) e s)"

definition logEvent :: "PaperEvent \<Rightarrow> Paper \<Rightarrow> Paper" where
  "logEvent e s = s\<lparr>fired := fired s @ [(eventType e, hist e)]\<rparr>"

text \<open>
  \<^verbatim>\<open>_fireEvent\<close>. The event object is mutated by the listeners; the caller holds it,
  so it is returned with the paper.
\<close>

definition fireEvent :: "PaperEvent \<Rightarrow> Paper \<Rightarrow> (PaperEvent \<times> Paper) result" where
  "fireEvent e s =
     (case forEachListener (length (listenersOf s (eventType e))) 0 e s of
        (Some err, e', s') \<Rightarrow> (Some err, e', logEvent e' s')
      | (None, e', s') \<Rightarrow>
          (case defaultAction (noted LoopDone e') s' of
             (err, e'', s'') \<Rightarrow> (err, e'', logEvent e'' s'')))"

definition fire :: "PaperEvent \<Rightarrow> Paper \<Rightarrow> Paper result" where
  "fire e s = (case fireEvent e s of (err, e', s') \<Rightarrow> (err, s'))"

section \<open>Operations of the coordinator\<close>

definition hasNode :: "Paper \<Rightarrow> string \<Rightarrow> bool" where
  "hasNode s i = (map_of (nodes s) i \<noteq> None)"

definition hasEdge :: "Paper \<Rightarrow> string \<Rightarrow> bool" where
  "hasEdge s i = (map_of (edges s) i \<noteq> None)"

text \<open>
  \<^verbatim>\<open>addNode\<close>. The stored node keeps \<^verbatim>\<open>node.coords\<close> as given; the rounded values
  go to the \<^verbatim>\<open>transform\<close> of the element. The closure stores the node first and
  looks at the element afterwards.
\<close>

definition addNodeAction :: "IPaperInputNode \<Rightarrow> int \<Rightarrow> int \<Rightarrow> Paper \<Rightarrow> Paper result" where
  "addNodeAction node roundedX roundedY s =
     (let newNode = \<lparr>n_id = in_id node, n_coords = in_coords node,
                      n_element = in_element node, n_transform = None\<rparr>;
          s1 = s\<lparr>nodes := AList.update (in_id node) newNode (nodes s)\<rparr>
      in if in_element node then
           (None, s1\<lparr>nodes := AList.update (in_id node)
                      (newNode\<lparr>n_transform := Some \<lparr>cx = roundedX, cy = roundedY\<rparr>\<rparr>) (nodes s1)\<rparr>)
         else (Some E_INV_ELEM, s1))"

definition addNode :: "IPaperInputNode \<Rightarrow> Paper \<Rightarrow> Paper result" where
  "addNode node s =
     (if hasNode s (in_id node) then (Some E_DUP_ID, s)
      else
        (let roundedX = roundToNearest (cx (in_coords node)) (gridSize s);
             roundedY = roundToNearest (cy (in_coords node)) (gridSize s)
         in fire (newPaperEvent AddNodeEvt (addNodeAction node roundedX roundedY)) s))"

definition getNode :: "string \<Rightarrow> Paper \<Rightarrow> PaperError + IPaperStoredNode" where
  "getNode i s = (case map_of (nodes s) i of None \<Rightarrow> Inl E_NO_ID | Some n \<Rightarrow> Inr n)"

text \<open>\<^verbatim>\<open>removeEdge\<close>: the closure reads \<^verbatim>\<open>this._edges[id]\<close> again when it runs.\<close>

definition removeEdgeAction :: "string \<Rightarrow> Paper \<Rightarrow> Paper result" where
  "removeEdgeAction i s =
     (case map_of (edges s) i of
        None \<Rightarrow> (Some TypeError, s)
      | Some edge \<Rightarrow> (None, s\<lparr>edges := AList.delete i (edges s)\<rparr>))"

definition removeEdge :: "string \<Rightarrow> Paper \<Rightarrow> Paper result" where
  "removeEdge i s =
     (if hasEdge s i then fire (newPaperEvent RemoveEdgeEvt (removeEdgeAction i)) s
      else (Some E_NO_ID, s))"

definition usesNode :: "string \<Rightarrow> IPaperStoredEdge \<Rightarrow> bool" where
  "usesNode i edge = (e_source edge = NodeRef i \<or> e_target edge = NodeRef i)"

text \<open>
  The loop of the closure of \<^verbatim>\<open>removeNode\<close> over \<^verbatim>\<open>Object.keys(this._edges)\<close>, the
  keys as they were when the closure started; each matching edge goes through
  \<^verbatim>\<open>removeEdge\<close>.
\<close>

fun removeEdgesOf :: "string \<Rightarrow> string list \<Rightarrow> Paper \<Rightarrow> Paper result" where
  "removeEdgesOf i [] s = (None, s)"
| "removeEdgesOf i (edgeId # rest) s =
     (case map_of (edges s) edgeId of
        None \<Rightarrow> (Some TypeError, s)
      | Some edge \<Rightarrow>
          if usesNode i edge then
            (case removeEdge edgeId s of
               (Some err, s') \<Rightarrow> (Some err, s')
             | (None, s') \<Rightarrow> removeEdgesOf i rest s')
          else removeEdgesOf i rest s)"

text \<open>
  After the edges, \<^verbatim>\<open>this._nodes[id].instance.getNodeElement().remove()\<close> and the
  \<^verbatim>\<open>delete\<close>: calling \<^verbatim>\<open>remove\<close> on a missing element is a TypeError, raised before
  the \<^verbatim>\<open>delete\<close>.
\<close>

definition removeNodeAction :: "string \<Rightarrow> Paper \<Rightarrow> Paper result" where
  "removeNodeAction i s =
     (case removeEdgesOf i (map fst (edges s)) s of
        (Some err, s') \<Rightarrow> (Some err, s')
      | (None, s') \<Rightarrow>
          (case map_of (nodes s') i of
             None \<Rightarrow> (Some TypeError, s')
           | Some n \<Rightarrow>
               if n_element n then (None, s'\<lparr>nodes := AList.delete i (nodes s')\<rparr>)
               else (Some TypeError, s')))"

definition removeNode :: "string \<Rightarrow> Paper \<Rightarrow> Paper result" where
  "removeNode i s =
     (if hasNode s i then fire (newPaperEvent RemoveNodeEvt (removeNodeAction i)) s
      else (Some E_NO_ID, s))"

text \<open>
  \<^verbatim>\<open>_updateEdgeRoute\<close>. An end point that names a node resolves through
  \<^verbatim>\<open>this._nodes[id]\<close>; a literal point always resolves. The route itself (the mid
  points and intersections of \<^verbatim>\<open>getNodeMidpoint\<close> and \<^verbatim>\<open>getEdgeNodeIntersection\<close>,
  which are not among the source files, and the path the edge handle draws in the
  closure of the move-edge event) is rendering and leaves the registries as they are:
  the closure is the identity here.
\<close>

definition resolves :: "Paper \<Rightarrow> edgeEndPoint \<Rightarrow> bool" where
  "resolves s p = (case p of NodeRef i \<Rightarrow> hasNode s i | LiteralPoint c \<Rightarrow> True)"

definition updateEdgeRoute :: "string \<Rightarrow> Paper \<Rightarrow> Paper result" where
  "updateEdgeRoute i s =
     (case map_of (edges s) i of
        None \<Rightarrow> (Some E_NO_ID, s)
      | Some edge \<Rightarrow>
          if resolves s (e_source edge) \<and> resolves s (e_target edge) then
            fire (newPaperEvent MoveEdgeEvt (\<lambda>s'. (None, s'))) s
          else (Some E_NO_ID, s))"

definition addEdgeAction :: "IPaperInputEdge \<Rightarrow> Paper \<Rightarrow> Paper result" where
  "addEdgeAction edge s =
     (let newEdge = \<lparr>e_id = ie_id edge, e_source = ie_source edge,
                      e_target = ie_target edge, e_coords = ie_coords edge\<rparr>
      in updateEdgeRoute (ie_id edge) (s\<lparr>edges := AList.update (ie_id edge) newEdge (edges s)\<rparr>))"

definition addEdge :: "IPaperInputEdge \<Rightarrow> Paper \<Rightarrow> Paper result" where
  "addEdge edge s =
     (if hasEdge s (ie_id edge) then (Some E_DUP_ID, s)
      else if ie_element edge \<and> resolves s (ie_source edge) \<and> resolves s (ie_target edge)
      then fire (newPaperEvent AddEdgeEvt (addEdgeAction edge)) s
      else (Some E_INV_ELEM, s))"

text \<open>
  \<^verbatim>\<open>updateActiveItem\<close>: the test runs over \<^verbatim>\<open>Object.keys(activeItem)\<close>, the keys of
  the new item, and compares \<^verbatim>\<open>oldActiveItem[key]\<close> with \<^verbatim>\<open>activeItem[key]\<close>
  (a missing key reads as undefined, \<open>None\<close> here).
\<close>

definition sameKeys :: "IActiveItem \<Rightarrow> IActiveItem \<Rightarrow> bool" where
  "sameKeys oldItem newItem =
     list_all (\<lambda>key. map_of oldItem key = map_of newItem key) (map fst newItem)"

definition updateActiveItem :: "IActiveItem option \<Rightarrow> Paper \<Rightarrow> Paper result" where
  "updateActiveItem item s =
     (let oldActiveItem = activeItem s in
      if (case (oldActiveItem, item) of (Some old, Some new) \<Rightarrow> sameKeys old new | _ \<Rightarrow> False)
      then (None, s)
      else if item = None \<and> oldActiveItem = None then (None, s)
      else fire (newPaperEvent UpdateActiveItemEvt
                   (\<lambda>s'. (None, s'\<lparr>activeItem := item\<rparr>))) s)"

text \<open>
  The coordinate accessors behind a node handle. In the closure of the move-node event
  the stored node takes the new coordinates as given, the element takes them as its
  \<^verbatim>\<open>transform\<close>, and every edge that uses the node is routed again.
  \<^verbatim>\<open>setSVGAttribute\<close> is not among the source files: setting an attribute on a
  missing element is taken to raise a TypeError.
\<close>

fun rerouteEdgesOf :: "string \<Rightarrow> string list \<Rightarrow> Paper \<Rightarrow> Paper result" where
  "rerouteEdgesOf i [] s = (None, s)"
| "rerouteEdgesOf i (edgeId # rest) s =
     (case map_of (edges s) edgeId of
        None \<Rightarrow> (Some TypeError, s)
      | Some edge \<Rightarrow>
          if usesNode i edge then
            (case updateEdgeRoute edgeId s of
               (Some err, s') \<Rightarrow> (Some err, s')
             | (None, s') \<Rightarrow> rerouteEdgesOf i rest s')
          else rerouteEdgesOf i rest s)"

definition setNodeCoordsAction :: "string \<Rightarrow> IPaperStoredNode \<Rightarrow> ICoordinates \<Rightarrow> Paper \<Rightarrow> Paper result" where
  "setNodeCoordsAction i node newCoords s =
     (let s1 = s\<lparr>nodes := AList.update i (node\<lparr>n_coords := newCoords\<rparr>) (nodes s)\<rparr>
      in if n_element node then
           rerouteEdgesOf i (map fst (edges s1))
             (s1\<lparr>nodes := AList.update i
                    (node\<lparr>n_coords := newCoords, n_transform := Some newCoords\<rparr>) (nodes s1)\<rparr>)
         else (Some TypeError, s1))"

definition getNodeCoords :: "string \<Rightarrow> Paper \<Rightarrow> PaperError + ICoordinates" where
  "getNodeCoords i s = (case map_of (nodes s) i of None \<Rightarrow> Inl E_NO_ID | Some n \<Rightarrow> Inr (n_coords n))"

definition setNodeCoords :: "string \<Rightarrow> ICoordinates \<Rightarrow> Paper \<Rightarrow> Paper result" where
  "setNodeCoords i newCoords s =
     (case map_of (nodes s) i of
        None \<Rightarrow> (Some E_NO_ID, s)
      | Some node \<Rightarrow>
          if \<not> areCoordsEqual (n_coords node) newCoords then
            fire (newPaperEvent MoveNodeEvt (setNodeCoordsAction i node newCoords)) s
          else (None, s))"

text \<open>The accessors behind an edge handle: the registry entry is assigned, then the route is updated.\<close>

definition setEdgeSource :: "string \<Rightarrow> edgeEndPoint \<Rightarrow> Paper \<Rightarrow> Paper result" where
  "setEdgeSource i newSource s =
     (case map_of (edges s) i of
        None \<Rightarrow> (Some E_NO_ID, s)
      | Some edge \<Rightarrow>
          updateEdgeRoute i (s\<lparr>edges := AList.update i (edge\<lparr>e_source := newSource\<rparr>) (edges s)\<rparr>))"

definition setEdgeTarget :: "string \<Rightarrow> edgeEndPoint \<Rightarrow> Paper \<Rightarrow> Paper result" where
  "setEdgeTarget i newTarget s =
     (case map_of (edges s) i of
        None \<Rightarrow> (Some E_NO_ID, s)
      | Some edge \<Rightarrow>
          updateEdgeRoute i (s\<lparr>edges := AList.update i (edge\<lparr>e_target := newTarget\<rparr>) (edges s)\<rparr>))"

definition setEdgeCoords :: "string \<Rightarrow> ICoordinates list \<Rightarrow> Paper \<Rightarrow> Paper result" where
  "setEdgeCoords i newCoords s =
     (case map_of (edges s) i of
        None \<Rightarrow> (Some E_NO_ID, s)
      | Some edge \<Rightarrow>
          updateEdgeRoute i (s\<lparr>edges := AList.update i (edge\<lparr>e_coords := newCoords\<rparr>) (edges s)\<rparr>))"

section \<open>Sequences of calls\<close>

text \<open>
  The calls a client or a handle can make, as data, so that a history of calls is a
  list. A caller that catches the exception of a failed call goes on with the paper as
  the failed call left it.
\<close>

datatype mutation =
  AddNode IPaperInputNode
  | RemoveNode string
  | AddEdge IPaperInputEdge
  | RemoveEdge string
  | UpdateActiveItem "IActiveItem option"
  | SetNodeCoords string ICoordinates
  | SetEdgeSource string edgeEndPoint
  | SetEdgeTarget string edgeEndPoint
  | SetEdgeCoords string "ICoordinates list"
  | RegisterListener paperEventType listener
  | UnregisterListener paperEventType listener

fun perform :: "mutation \<Rightarrow> Paper \<Rightarrow> Paper result" where
  "perform (AddNode node) s = addNode node s"
| "perform (RemoveNode i) s = removeNode i s"
| "perform (AddEdge edge) s = addEdge edge s"
| "perform (RemoveEdge i) s = removeEdge i s"
| "perform (UpdateActiveItem item) s = updateActiveItem item s"
| "perform (SetNodeCoords i c) s = setNodeCoords i c s"
| "perform (SetEdgeSource i p) s = setEdgeSource i p s"
| "perform (SetEdgeTarget i p) s = setEdgeTarget i p s"
| "perform (SetEdgeCoords i cs) s = setEdgeCoords i cs s"
| "perform (RegisterListener ty l) s = (None, addListener ty l s)"
| "perform (UnregisterListener ty l) s = (None, removeListener ty l s)"

fun run :: "mutation list \<Rightarrow> Paper \<Rightarrow> Paper" where
  "run [] s = s"
| "run (m # ms) s = run ms (snd (perform m s))"

text \<open>
  The ids a history of \<open>addNode\<close> and \<open>removeNode\<close> calls leaves, counted from the
  outcome of each call: an id enters with an \<open>addNode\<close> that returns, and leaves with a
  \<open>removeNode\<close> that returns.
\<close>

fun idsAddedNotRemoved :: "mutation list \<Rightarrow> Paper \<Rightarrow> string set \<Rightarrow> string set" where
  "idsAddedNotRemoved [] s acc = acc"
| "idsAddedNotRemoved (m # ms) s acc =
     (case perform m s of
        (Some err, s') \<Rightarrow> idsAddedNotRemoved ms s' acc
      | (None, s') \<Rightarrow>
          idsAddedNotRemoved ms s'
            (case m of AddNode node \<Rightarrow> insert (in_id node) acc
                     | RemoveNode i \<Rightarrow> acc - {i}
                     | _ \<Rightarrow> acc))"

text \<open>A history in which every call that fails leaves the paper exactly as it was.\<close>

fun failuresChangeNothing :: "mutation list \<Rightarrow> Paper \<Rightarrow> bool" where
  "failuresChangeNothing [] s = True"
| "failuresChangeNothing (m # ms) s =
     (case perform m s of
        (Some err, s') \<Rightarrow> s' = s \<and> failuresChangeNothing ms s'
      | (None, s') \<Rightarrow> failuresChangeNothing ms s')"

fun isNodeCall :: "mutation \<Rightarrow> bool" where
  "isNodeCall (AddNode node) = True"
| "isNodeCall (RemoveNode i) = True"
| "isNodeCall m = False"

text \<open>The mutations that are deferred to the closure of the event they fire.\<close>

fun deferred :: "mutation \<Rightarrow> bool" where
  "deferred (AddNode node) = True"
| "deferred (RemoveNode i) = True"
| "deferred (AddEdge edge) = True"
| "deferred (RemoveEdge i) = True"
| "deferred (UpdateActiveItem item) = True"
| "deferred (SetNodeCoords i c) = True"
| "deferred m = False"

section \<open>Stored coordinates\<close>

fun pointsOf :: "edgeEndPoint \<Rightarrow> ICoordinates set" where
  "pointsOf (NodeRef i) = {}"
| "pointsOf (LiteralPoint c) = {c}"

definition edgeCoords :: "IPaperStoredEdge \<Rightarrow> ICoordinates set" where
  "edgeCoords edge = pointsOf (e_source edge) \<union> pointsOf (e_target edge) \<union> set (e_coords edge)"

definition storedCoords :: "Paper \<Rightarrow> ICoordinates set" where
  "storedCoords s =
     (\<lambda>kv. n_coords (snd kv)) ` set (nodes s) \<union> (\<Union>kv \<in> set (edges s). edgeCoords (snd kv))"

fun inputCoords :: "mutation \<Rightarrow> ICoordinates set" where
  "inputCoords (AddNode node) = {in_coords node}"
| "inputCoords (AddEdge edge) =
     pointsOf (ie_source edge) \<union> pointsOf (ie_target edge) \<union> set (ie_coords edge)"
| "inputCoords (SetNodeCoords i c) = {c}"
| "inputCoords (SetEdgeSource i p) = pointsOf p"
| "inputCoords (SetEdgeTarget i p) = pointsOf p"
| "inputCoords (SetEdgeCoords i cs) = set cs"
| "inputCoords m = {}"

definition onGrid :: "int \<Rightarrow> ICoordinates \<Rightarrow> bool" where
  "onGrid unit c = (unit dvd cx c \<and> unit dvd cy c)"

section \<open>Reading the record of a firing\<close>

fun invoked :: "entry list \<Rightarrow> listener list" where
  "invoked [] = []"
| "invoked (Invoked l # h) = l # invoked h"
| "invoked (x # h) = invoked h"

text \<open>
  The listeners of a list up to and including the first one that calls
  \<open>stopPropagation\<close>.
\<close>

fun uptoStop :: "listener list \<Rightarrow> listener list" where
  "uptoStop [] = []"
| "uptoStop (l # ls) = (if StopPropagation \<in> set (body l) then [l] else l # uptoStop ls)"

text \<open>
  Where an event stands after the calls recorded so far: nobody has decided yet, a
  listener vetoed the closure first, or a listener called it first.
\<close>

datatype phase = Pending | Vetoed | Forced

fun step :: "phase \<Rightarrow> entry \<Rightarrow> phase" where
  "step Pending (Call PreventDefault) = Vetoed"
| "step Pending (Call DefaultAction) = Forced"
| "step ph x = ph"

definition phaseOf :: "entry list \<Rightarrow> phase" where
  "phaseOf h = foldl step Pending h"

section \<open>What a firing leaves alone\<close>

text \<open>Everything of the paper but the listener table.\<close>

definition regs ::
  "Paper \<Rightarrow> (string \<times> IPaperStoredNode) list \<times> (string \<times> IPaperStoredEdge) list \<times>
     IActiveItem option \<times> int \<times> (paperEventType \<times> entry list) list" where
  "regs s = (nodes s, edges s, activeItem s, gridSize s, fired s)"

text \<open>An event that a listener vetoed first has lost its closure.\<close>

definition vetoInv :: "PaperEvent \<Rightarrow> bool" where
  "vetoInv e = (phaseOf (hist e) = Vetoed \<longrightarrow> closure e = None)"

section \<open>Notions for the proofs about a firing\<close>

text \<open>One action of a listener, as \<open>callListener\<close> runs it.\<close>

definition act :: "action \<Rightarrow> PaperEvent \<Rightarrow> Paper \<Rightarrow> (PaperEvent \<times> Paper) result" where
  "act a e s = callListener [a] e s"



text \<open>
  A closure that \<open>keeps\<close> the listeners of a type leaves their list as it is; a body
  with \<open>noRemoval\<close> for a type never removes a listener of that type.
\<close>

definition keeps :: "paperEventType \<Rightarrow> (Paper \<Rightarrow> Paper result) \<Rightarrow> bool" where
  "keeps ty f = (\<forall>s. listenersOf (snd (f s)) ty = listenersOf s ty)"

definition noRemoval :: "paperEventType \<Rightarrow> action list \<Rightarrow> bool" where
  "noRemoval ty as = (\<forall>l. RemoveListener ty l \<notin> set as)"

text \<open>How often an entry occurs in a record; the closure of an event runs at most once.\<close>

definition occurrences :: "entry \<Rightarrow> entry list \<Rightarrow> nat" where
  "occurrences x h = length (filter (\<lambda>y. y = x) h)"

definition onceInv :: "PaperError option \<Rightarrow> PaperEvent \<Rightarrow> Paper \<Rightarrow> bool" where
  "onceInv err e s =
     (occurrences LoopDone (hist e) = 0
      \<and> (occurrences RanDefault (hist e) = 0
         \<or> occurrences RanDefault (hist e) = 1 \<and> (err = None \<longrightarrow> closure e = None)))"

text \<open>
  A paper is \<open>within\<close> a set of coordinates when every coordinate its registries store
  is in the set.
\<close>

definition within :: "ICoordinates set \<Rightarrow> Paper \<Rightarrow> bool" where
  "within A s = (storedCoords s \<subseteq> A)"

definition withinInv :: "ICoordinates set \<Rightarrow> (Paper \<Rightarrow> Paper result) \<Rightarrow> PaperError option \<Rightarrow> PaperEvent \<Rightarrow> Paper \<Rightarrow> bool" where
  "withinInv A f err e s = (within A s \<and> (closure e = None \<or> closure e = Some f))"

text \<open>
  A \<open>plain\<close> paper has no listeners and no edges, unique node ids, and an element on
  every stored node.
\<close>

definition plain :: "Paper \<Rightarrow> bool" where
  "plain s = (listeners s = [] \<and> edges s = [] \<and> distinct (map fst (nodes s))
     \<and> (\<forall>kv \<in> set (nodes s). n_element (snd kv)))"

section \<open>Example papers\<close>

text \<open>A paper with grid unit 20 holding the node \<open>n1\<close> at (60, 40), added through \<open>addNode\<close>.\<close>

definition paperN1 :: Paper where
  "paperN1 = snd (addNode \<lparr>in_id = ''n1'', in_coords = \<lparr>cx = 60, cy = 40\<rparr>, in_element = True\<rparr>
                    (newPaper 20))"

text \<open>The same paper after \<open>addEdge\<close> of \<open>e1\<close> from \<open>n1\<close> to the point (200, 200).\<close>

definition paperE1 :: Paper where
  "paperE1 = snd (addEdge \<lparr>ie_id = ''e1'', ie_source = NodeRef ''n1'',
                    ie_target = LiteralPoint \<lparr>cx = 200, cy = 200\<rparr>, ie_coords = [],
                    ie_element = True\<rparr> paperN1)"

text \<open>A node whose handle has no element.\<close>

definition nodeNoElement :: IPaperInputNode where
  "nodeNoElement = \<lparr>in_id = ''n2'', in_coords = \<lparr>cx = 0, cy = 0\<rparr>, in_element = False\<rparr>"

text \<open>The paper \<open>paperN1\<close> after the failed \<open>addNode\<close> of that node.\<close>

definition paperBroken :: Paper where
  "paperBroken = snd (addNode nodeNoElement paperN1)"

text \<open>Listeners: one that removes itself, two that do nothing, one that calls the closure
  early, one that stops the propagation, one that vetoes, one that adds a listener.\<close>

definition once :: listener where
  "once = Listener 1 [RemoveListener AddNodeEvt (Listener 1 [])]"

definition idle2 :: listener where
  "idle2 = Listener 2 []"

definition idle3 :: listener where
  "idle3 = Listener 3 []"

definition forcer :: listener where
  "forcer = Listener 4 [DefaultAction]"

definition stopper :: listener where
  "stopper = Listener 5 [StopPropagation]"

definition vetoer :: listener where
  "vetoer = Listener 6 [PreventDefault]"

definition adder :: listener where
  "adder = Listener 7 [AddListener AddNodeEvt (Listener 3 [])]"

definition nodeN3 :: IPaperInputNode where
  "nodeN3 = \<lparr>in_id = ''n3'', in_coords = \<lparr>cx = 65, cy = 47\<rparr>, in_element = True\<rparr>"

text \<open>Papers with listeners registered for add-node, through \<open>addListener\<close>.\<close>

definition paperOnce :: Paper where
  "paperOnce = run [RegisterListener AddNodeEvt once, RegisterListener AddNodeEvt idle2,
                    RegisterListener AddNodeEvt idle3] (newPaper 20)"



definition paperAdder :: Paper where
  "paperAdder = run [RegisterListener AddNodeEvt adder, RegisterListener AddNodeEvt idle2] (newPaper 20)"

text \<open>A history of node calls, two of which fail (a duplicate id, an unknown id).\<close>

definition nodeN1 :: IPaperInputNode where
  "nodeN1 = \<lparr>in_id = ''n1'', in_coords = \<lparr>cx = 60, cy = 40\<rparr>, in_element = True\<rparr>"

definition nodeCalls :: "mutation list" where
  "nodeCalls = [AddNode nodeN3, AddNode nodeN3, RemoveNode ''n9'', AddNode nodeN1, RemoveNode ''n3'']"

text \<open>The paper \<open>paperE1\<close> with a listener for move-edge that vetoes.\<close>

definition paperVetoEdge :: Paper where
  "paperVetoEdge = run [RegisterListener MoveEdgeEvt vetoer] paperE1"

text \<open>A history of calls that hand in coordinates off the grid of 20, and one on it.\<close>

definition edgeE2 :: IPaperInputEdge where
  "edgeE2 = \<lparr>ie_id = ''e2'', ie_source = NodeRef ''n3'',
             ie_target = LiteralPoint \<lparr>cx = 7, cy = 9\<rparr>, ie_coords = [\<lparr>cx = 1, cy = 2\<rparr>],
             ie_element = True\<rparr>"

definition coordCalls :: "mutation list" where
  "coordCalls = [AddNode nodeN3, AddEdge edgeE2, SetNodeCoords ''n3'' \<lparr>cx = 13, cy = 0\<rparr>]"

definition gridCalls :: "mutation list" where
  "gridCalls = [AddNode nodeN1, SetNodeCoords ''n1'' \<lparr>cx = 40, cy = 100\<rparr>]"

text \<open>An active item with three keys, and a new item that has only one of them.\<close>

definition itemSelectedN1 :: IActiveItem where
  "itemSelectedN1 = [(''elementType'', ''node''), (''id'', ''n1''), (''paperItemState'', ''selected'')]"

definition itemIdOnly :: IActiveItem where
  "itemIdOnly = [(''id'', ''n1'')]"

section \<open>Evaluation of the definitions\<close>

lemmas pipeline_defs =
  fire_def fireEvent_def listenersOf_def newPaperEvent_def defaultAction_def noted_def
  logEvent_def preventDefault_def stopPropagation_def addListener_def removeListener_def
  splice1_def

lemmas operation_defs =
  addNode_def addNodeAction_def removeNode_def removeNodeAction_def removeEdge_def
  removeEdgeAction_def addEdge_def addEdgeAction_def updateEdgeRoute_def resolves_def
  hasNode_def hasEdge_def usesNode_def updateActiveItem_def sameKeys_def setNodeCoords_def
  setNodeCoordsAction_def setEdgeSource_def setEdgeTarget_def setEdgeCoords_def
  areCoordsEqual_def roundToNearest_def roundToNearest3_def newPaper_def

lemma fire_without_listeners:
  "listenersOf s ty = [] \<Longrightarrow>
   fire (newPaperEvent ty f) s =
     (case f s of (err, s') \<Rightarrow> (err, s'\<lparr>fired := fired s' @ [(ty, [LoopDone, RanDefault])]\<rparr>))"
  by (auto simp: fire_def fireEvent_def newPaperEvent_def defaultAction_def
      noted_def logEvent_def split: prod.splits option.splits)

lemma paperN1_eval:
  "paperN1 = \<lparr>nodes = [(''n1'', \<lparr>n_id = ''n1'', n_coords = \<lparr>cx = 60, cy = 40\<rparr>,
                 n_element = True, n_transform = Some \<lparr>cx = 60, cy = 40\<rparr>\<rparr>)],
               edges = [], activeItem = None, listeners = [], gridSize = 20,
               fired = [(AddNodeEvt, [LoopDone, RanDefault])]\<rparr>"
  by (simp add: paperN1_def operation_defs pipeline_defs Let_def)

lemma paperE1_eval:
  "paperE1 = \<lparr>nodes = [(''n1'', \<lparr>n_id = ''n1'', n_coords = \<lparr>cx = 60, cy = 40\<rparr>,
                 n_element = True, n_transform = Some \<lparr>cx = 60, cy = 40\<rparr>\<rparr>)],
               edges = [(''e1'', \<lparr>e_id = ''e1'', e_source = NodeRef ''n1'',
                 e_target = LiteralPoint \<lparr>cx = 200, cy = 200\<rparr>, e_coords = []\<rparr>)],
               activeItem = None, listeners = [], gridSize = 20,
               fired = [(AddNodeEvt, [LoopDone, RanDefault]), (MoveEdgeEvt, [LoopDone, RanDefault]),
                        (AddEdgeEvt, [LoopDone, RanDefault])]\<rparr>"
  by (simp add: paperE1_def paperN1_eval operation_defs pipeline_defs Let_def)

lemma paperBroken_eval:
  "paperBroken = \<lparr>nodes = [(''n1'', \<lparr>n_id = ''n1'', n_coords = \<lparr>cx = 60, cy = 40\<rparr>,
                     n_element = True, n_transform = Some \<lparr>cx = 60, cy = 40\<rparr>\<rparr>),
                   (''n2'', \<lparr>n_id = ''n2'', n_coords = \<lparr>cx = 0, cy = 0\<rparr>,
                     n_element = False, n_transform = None\<rparr>)],
               edges = [], activeItem = None, listeners = [], gridSize = 20,
               fired = [(AddNodeEvt, [LoopDone, RanDefault]), (AddNodeEvt, [LoopDone, RanDefault])]\<rparr>"
  by (simp add: paperBroken_def nodeNoElement_def paperN1_eval operation_defs pipeline_defs Let_def)

lemmas listener_defs = once_def idle2_def idle3_def forcer_def stopper_def vetoer_def adder_def

lemma paperOnce_eval:
  "paperOnce = (newPaper 20)\<lparr>listeners := [(AddNodeEvt, [once, idle2, idle3])]\<rparr>"
  by (simp add: paperOnce_def pipeline_defs newPaper_def listener_defs Let_def)



lemma paperAdder_eval:
  "paperAdder = (newPaper 20)\<lparr>listeners := [(AddNodeEvt, [adder, idle2])]\<rparr>"
  by (simp add: paperAdder_def pipeline_defs newPaper_def listener_defs Let_def)

lemma paperVetoEdge_eval:
  "paperVetoEdge = paperE1\<lparr>listeners := [(MoveEdgeEvt, [vetoer])]\<rparr>"
  by (simp add: paperVetoEdge_def paperE1_eval pipeline_defs Let_def)

lemma coordCalls_eval:
  "storedCoords (run coordCalls (newPaper 20))
     = {\<lparr>cx = 1, cy = 2\<rparr>, \<lparr>cx = 7, cy = 9\<rparr>, \<lparr>cx = 13, cy = 0\<rparr>}"
  "storedCoords (run coordCalls (newPaper 0))
     = {\<lparr>cx = 1, cy = 2\<rparr>, \<lparr>cx = 7, cy = 9\<rparr>, \<lparr>cx = 13, cy = 0\<rparr>}"
  by (simp_all add: coordCalls_def edgeE2_def nodeN3_def operation_defs pipeline_defs
      storedCoords_def edgeCoords_def Let_def)

lemma gridCalls_eval:
  "storedCoords (run gridCalls (newPaper 20)) = {\<lparr>cx = 40, cy = 100\<rparr>}"
  by (simp add: gridCalls_def nodeN1_def operation_defs pipeline_defs storedCoords_def Let_def)

section \<open>The active item\<close>

text \<open>
  C10. When there is a current active item and \<open>updateActiveItem\<close> is called with an
  item, only the keys of the new item are compared: if each of them has the same value
  on the current item, the call returns with no event fired and the paper as it was,
  whatever other keys the current item has.
\<close>

theorem updateActiveItem_compares_new_keys_only:
  assumes "activeItem s = Some old"
    and "\<forall>key \<in> set (map fst new). map_of old key = map_of new key"
  shows "updateActiveItem (Some new) s = (None, s)"
  using assms by (simp add: updateActiveItem_def sameKeys_def list_all_iff)

theorem updateActiveItem_compares_new_keys_only_witness:
  "updateActiveItem (Some itemIdOnly) (paperN1\<lparr>activeItem := Some itemSelectedN1\<rparr>)
     = (None, paperN1\<lparr>activeItem := Some itemSelectedN1\<rparr>)
   \<and> map fst itemSelectedN1 \<noteq> map fst itemIdOnly"
  using updateActiveItem_compares_new_keys_only
    [of "paperN1\<lparr>activeItem := Some itemSelectedN1\<rparr>" itemSelectedN1 itemIdOnly]
  by (simp add: itemSelectedN1_def itemIdOnly_def)

section \<open>Moving a node\<close>

text \<open>
  C9, as the spec states it, fails: \<open>n1\<close> is stored at (60, 40) on a grid of 20, the
  target (65, 47) snaps to (60, 40), and yet assigning it fires a move-node event and
  changes both the stored coordinates and the handle position to (65, 47).
\<close>

theorem setNodeCoords_snapped_equal_counterexample:
  "map_of (nodes paperN1) ''n1''
     = Some \<lparr>n_id = ''n1'', n_coords = \<lparr>cx = 60, cy = 40\<rparr>, n_element = True,
             n_transform = Some \<lparr>cx = 60, cy = 40\<rparr>\<rparr>
   \<and> roundToNearest 65 (gridSize paperN1) = 60
   \<and> roundToNearest 47 (gridSize paperN1) = 40
   \<and> fired (snd (setNodeCoords ''n1'' \<lparr>cx = 65, cy = 47\<rparr> paperN1))
       = fired paperN1 @ [(MoveNodeEvt, [LoopDone, RanDefault])]
   \<and> map_of (nodes (snd (setNodeCoords ''n1'' \<lparr>cx = 65, cy = 47\<rparr> paperN1))) ''n1''
       = Some \<lparr>n_id = ''n1'', n_coords = \<lparr>cx = 65, cy = 47\<rparr>, n_element = True,
               n_transform = Some \<lparr>cx = 65, cy = 47\<rparr>\<rparr>"
  by (simp add: paperN1_eval operation_defs pipeline_defs Let_def)

text \<open>
  C9, amended: for a registered node and a target that is equal, as given and without
  any snapping, to the stored coordinates of the node, the setter returns with no event
  fired and the paper as it was (stored coordinates and handle position included).
\<close>

theorem setNodeCoords_same_coords_noop:
  assumes "map_of (nodes s) i = Some node"
    and "cx newCoords = cx (n_coords node)" and "cy newCoords = cy (n_coords node)"
  shows "setNodeCoords i newCoords s = (None, s)"
  using assms by (simp add: setNodeCoords_def areCoordsEqual_def)

theorem setNodeCoords_same_coords_noop_witness:
  "setNodeCoords ''n1'' \<lparr>cx = 60, cy = 40\<rparr> paperN1 = (None, paperN1)"
  using setNodeCoords_same_coords_noop
    [of paperN1 "''n1''" "\<lparr>n_id = ''n1'', n_coords = \<lparr>cx = 60, cy = 40\<rparr>, n_element = True,
             n_transform = Some \<lparr>cx = 60, cy = 40\<rparr>\<rparr>" "\<lparr>cx = 60, cy = 40\<rparr>"]
  by (simp add: paperN1_eval)

section \<open>The listener lists\<close>

lemma findIndex_absent: "\<forall>x \<in> set xs. \<not> p x \<Longrightarrow> findIndex p xs = -1"
  by (induction xs) (auto simp: Let_def)

lemma findIndex_first:
  "p x \<Longrightarrow> \<forall>y \<in> set pre. \<not> p y \<Longrightarrow> findIndex p (pre @ x # post) = int (length pre)"
  by (induction pre) (auto simp: Let_def)

lemma splice1_at: "splice1 (int (length pre)) (pre @ x # post) = pre @ post"
  by (simp add: splice1_def Let_def)

lemma splice1_minus_one: "xs \<noteq> [] \<Longrightarrow> splice1 (-1) xs = butlast xs"
  by (cases xs rule: rev_cases) (auto simp: splice1_def Let_def)

lemma listenersOf_Some: "listenersOf s ty \<noteq> [] \<Longrightarrow> map_of (listeners s) ty = Some (listenersOf s ty)"
  by (auto simp: listenersOf_def split: option.splits)

lemma addListener_registered:
  assumes "c \<in> set (listenersOf s ty)" and "lid c = lid l"
  shows "addListener ty l s = s"
proof -
  have ne: "listenersOf s ty \<noteq> []" using assms(1) by auto
  have "\<not> list_all (\<lambda>c. lid c \<noteq> lid l) (listenersOf s ty)"
    using assms by (auto simp: list_all_iff)
  then show ?thesis
    using listenersOf_Some[OF ne] by (simp add: addListener_def Let_def update_triv)
qed

lemma listenersOf_addListener:
  "listenersOf (addListener ty l s) ty =
     (if \<forall>c \<in> set (listenersOf s ty). lid c \<noteq> lid l then listenersOf s ty @ [l]
      else listenersOf s ty)"
  by (cases "map_of (listeners s) ty")
     (simp_all add: addListener_def Let_def listenersOf_def update_conv' list_all_iff)

lemma removeListener_registered:
  assumes "listenersOf s ty = pre @ c # post" and "lid c = lid l"
    and "\<forall>d \<in> set pre. lid d \<noteq> lid l"
  shows "listenersOf (removeListener ty l s) ty = pre @ post"
proof -
  have m: "map_of (listeners s) ty = Some (pre @ c # post)"
    using listenersOf_Some[of s ty] assms(1) by simp
  have "findIndex (\<lambda>d. lid d = lid l) (pre @ c # post) = int (length pre)"
    using assms(2,3) by (intro findIndex_first) auto
  then show ?thesis using m
    by (simp add: removeListener_def listenersOf_def update_conv' splice1_at)
qed

lemma removeListener_absent:
  assumes "listenersOf s ty \<noteq> []" and "\<forall>c \<in> set (listenersOf s ty). lid c \<noteq> lid l"
  shows "listenersOf (removeListener ty l s) ty = butlast (listenersOf s ty)"
proof -
  obtain ls where m: "map_of (listeners s) ty = Some ls" and ls: "listenersOf s ty = ls"
    using listenersOf_Some[OF assms(1)] by simp
  have ne: "ls \<noteq> []" using assms(1) ls by simp
  have "findIndex (\<lambda>d. lid d = lid l) ls = -1"
    using assms(2) ls by (intro findIndex_absent) auto
  then have "listenersOf (removeListener ty l s) ty = butlast ls"
    using m ne by (simp add: removeListener_def listenersOf_def update_conv' splice1_minus_one)
  then show ?thesis using ls by simp
qed

lemma addListener_keeps_unique:
  assumes "distinct (map lid (listenersOf s ty))"
  shows "distinct (map lid (listenersOf (addListener ty l s) ty))"
  using assms by (auto simp: listenersOf_addListener)

text \<open>
  What holds of the listener lists: \<open>addListener\<close> changes nothing when the function
  is registered (\<open>addListener_registered\<close>) and keeps the references unique
  (\<open>addListener_keeps_unique\<close>); \<open>removeListener\<close> of a registered function removes
  its entry and keeps the order of the others (\<open>removeListener_registered\<close>). What does
  not: for a function that is not registered, the last entry goes
  (\<open>removeListener_absent\<close>).
\<close>

text \<open>
  C4 at a failing input: with one listener registered for add-node, removing another
  function that was never registered empties the list (\<open>findIndex\<close> answers -1 and
  \<open>splice(-1, 1)\<close> removes the last entry).
\<close>

theorem removeListener_absent_removes_last:
  "listenersOf (addListener AddNodeEvt (Listener 1 []) (newPaper 0)) AddNodeEvt = [Listener 1 []]
   \<and> listenersOf (removeListener AddNodeEvt (Listener 2 [])
        (addListener AddNodeEvt (Listener 1 []) (newPaper 0))) AddNodeEvt = []"
  by (simp add: pipeline_defs newPaper_def Let_def)

section \<open>A vetoed event\<close>

lemma regs_addListener [simp]: "regs (addListener ty l s) = regs s"
  by (simp add: regs_def addListener_def Let_def)

lemma regs_removeListener [simp]: "regs (removeListener ty l s) = regs s"
  by (simp add: regs_def removeListener_def split: option.splits)

lemma phaseOf_snoc: "phaseOf (h @ [x]) = step (phaseOf h) x"
  by (simp add: phaseOf_def)

lemma step_Forced: "foldl step Forced h = Forced"
  by (induction h) auto

lemma step_Vetoed: "foldl step Vetoed h = Vetoed"
  by (induction h) auto

lemma phaseOf_append_Forced: "phaseOf h = Forced \<Longrightarrow> phaseOf (h @ h') = Forced"
  by (simp add: phaseOf_def step_Forced)

lemma phaseOf_append_Vetoed: "phaseOf h = Vetoed \<Longrightarrow> phaseOf (h @ h') = Vetoed"
  by (simp add: phaseOf_def step_Vetoed)

lemma step_eq_Forced:
  "step ph x = Forced \<longleftrightarrow> ph = Forced \<or> (ph = Pending \<and> x = Call DefaultAction)"
  by (cases "(ph, x)" rule: step.cases) auto

lemma step_eq_Vetoed:
  "step ph x = Vetoed \<longleftrightarrow> ph = Vetoed \<or> (ph = Pending \<and> x = Call PreventDefault)"
  by (cases "(ph, x)" rule: step.cases) auto

lemma phaseOf_no_force: "Call DefaultAction \<notin> set h \<Longrightarrow> phaseOf h \<noteq> Forced"
  by (induction h rule: rev_induct) (auto simp: phaseOf_snoc step_eq_Forced phaseOf_def)

lemma phaseOf_veto_split:
  assumes "h = pre @ Call PreventDefault # post" and "Call DefaultAction \<notin> set pre"
  shows "phaseOf h = Vetoed"
proof -
  have "phaseOf pre \<noteq> Forced" using assms(2) by (rule phaseOf_no_force)
  then have "phaseOf (pre @ [Call PreventDefault]) = Vetoed"
    by (cases "phaseOf pre") (auto simp: phaseOf_snoc)
  then have "phaseOf ((pre @ [Call PreventDefault]) @ post) = Vetoed"
    by (rule phaseOf_append_Vetoed)
  then show ?thesis using assms(1) by simp
qed

lemma defaultAction_veto:
  assumes "defaultAction e s = (err, e', s')" and "phaseOf (hist e) \<noteq> Pending" and "vetoInv e"
  shows "vetoInv e' \<and> eventType e' = eventType e \<and> phaseOf (hist e') = phaseOf (hist e)
     \<and> (phaseOf (hist e') \<noteq> Forced \<longrightarrow> err = None \<and> regs s' = regs s)"
  using assms
  by (cases "phaseOf (hist e)")
     (auto simp: defaultAction_def vetoInv_def noted_def phaseOf_snoc split: option.splits prod.splits)

lemma callListener_veto:
  assumes "callListener as e s = (err, e', s')" and "vetoInv e"
  shows "vetoInv e' \<and> eventType e' = eventType e
     \<and> (phaseOf (hist e') \<noteq> Forced \<longrightarrow> err = None \<and> regs s' = regs s \<and> phaseOf (hist e) \<noteq> Forced)"
  using assms
proof (induction as e s rule: callListener.induct)
  case (1 e s)
  then show ?case by simp
next
  case (2 a as e s)
  show ?case
  proof (cases a)
    case DefaultAction
    let ?e1 = "noted (Call a) e"
    have p1: "phaseOf (hist ?e1) = step (phaseOf (hist e)) (Call DefaultAction)"
      by (simp add: noted_def phaseOf_snoc DefaultAction)
    then have np: "phaseOf (hist ?e1) \<noteq> Pending" by (cases "phaseOf (hist e)") auto
    have v1: "vetoInv ?e1" using "2.prems"(2) p1
      by (cases "phaseOf (hist e)") (auto simp: vetoInv_def noted_def)
    obtain err1 e1 s1 where d: "defaultAction ?e1 s = (err1, e1, s1)" by (cases "defaultAction ?e1 s") auto
    note da = defaultAction_veto[OF d np v1]
    show ?thesis
    proof (cases err1)
      case None
      then have c: "callListener as e1 s1 = (err, e', s')"
        using "2.prems"(1) d DefaultAction by simp
      have ih: "vetoInv e' \<and> eventType e' = eventType e1
        \<and> (phaseOf (hist e') \<noteq> Forced \<longrightarrow> err = None \<and> regs s' = regs s1 \<and> phaseOf (hist e1) \<noteq> Forced)"
        using "2.IH"(1)[OF DefaultAction d[symmetric] _ _ c] None da by simp
      show ?thesis using ih da p1 by (auto simp: noted_def step_eq_Forced)
    next
      case (Some x)
      then have eq: "err = Some x" "e' = e1" "s' = s1" using "2.prems"(1) d DefaultAction by auto
      have "phaseOf (hist e1) = Forced" using da Some by auto
      then show ?thesis using da eq by (simp add: noted_def)
    qed
  next
    case PreventDefault
    let ?e1 = "preventDefault (noted (Call a) e)"
    have c: "callListener as ?e1 s = (err, e', s')" using "2.prems"(1) PreventDefault by simp
    have v1: "vetoInv ?e1" by (simp add: vetoInv_def preventDefault_def)
    have p1: "phaseOf (hist ?e1) = step (phaseOf (hist e)) (Call PreventDefault)"
      by (simp add: noted_def preventDefault_def phaseOf_snoc PreventDefault)
    show ?thesis using "2.IH"(2)[OF PreventDefault c v1] p1
      by (auto simp: noted_def preventDefault_def step_eq_Forced)
  next
    case StopPropagation
    let ?e1 = "stopPropagation (noted (Call a) e)"
    have c: "callListener as ?e1 s = (err, e', s')" using "2.prems"(1) StopPropagation by simp
    have p1: "phaseOf (hist ?e1) = phaseOf (hist e)"
      by (simp add: noted_def stopPropagation_def phaseOf_snoc StopPropagation)
    have v1: "vetoInv ?e1" using "2.prems"(2) p1 by (simp add: vetoInv_def stopPropagation_def noted_def)
    show ?thesis using "2.IH"(3)[OF StopPropagation c v1] p1
      by (auto simp: noted_def stopPropagation_def)
  next
    case (AddListener ty l)
    let ?e1 = "noted (Call a) e"
    have c: "callListener as ?e1 (addListener ty l s) = (err, e', s')"
      using "2.prems"(1) AddListener by simp
    have p1: "phaseOf (hist ?e1) = phaseOf (hist e)"
      by (simp add: noted_def phaseOf_snoc AddListener)
    have v1: "vetoInv ?e1" using "2.prems"(2) p1 by (simp add: vetoInv_def noted_def)
    show ?thesis using "2.IH"(4)[OF AddListener c v1] p1
      by (auto simp: noted_def)
  next
    case (RemoveListener ty l)
    let ?e1 = "noted (Call a) e"
    have c: "callListener as ?e1 (removeListener ty l s) = (err, e', s')"
      using "2.prems"(1) RemoveListener by simp
    have p1: "phaseOf (hist ?e1) = phaseOf (hist e)"
      by (simp add: noted_def phaseOf_snoc RemoveListener)
    have v1: "vetoInv ?e1" using "2.prems"(2) p1 by (simp add: vetoInv_def noted_def)
    show ?thesis using "2.IH"(5)[OF RemoveListener c v1] p1
      by (auto simp: noted_def)
  qed
qed


lemma forEachListener_veto:
  assumes "forEachListener n k e s = (err, e', s')" and "vetoInv e"
  shows "vetoInv e' \<and> eventType e' = eventType e
     \<and> (phaseOf (hist e') \<noteq> Forced \<longrightarrow> err = None \<and> regs s' = regs s \<and> phaseOf (hist e) \<noteq> Forced)"
  using assms
proof (induction n k e s rule: forEachListener.induct)
  case (1 k e s)
  then show ?case by simp
next
  case (2 n k e s)
  let ?ls = "listenersOf s (eventType e)"
  show ?case
  proof (cases "k < length ?ls \<and> canPropagate e")
    case True
    let ?e1 = "noted (Invoked (?ls ! k)) e"
    have p1: "phaseOf (hist ?e1) = phaseOf (hist e)" by (simp add: noted_def phaseOf_snoc)
    have v1: "vetoInv ?e1" using "2.prems"(2) p1 by (simp add: vetoInv_def noted_def)
    obtain err1 e1 s1 where c: "callListener (body (?ls ! k)) ?e1 s = (err1, e1, s1)"
      by (cases "callListener (body (?ls ! k)) ?e1 s") auto
    note cl = callListener_veto[OF c v1]
    show ?thesis
    proof (cases err1)
      case None
      then have f: "forEachListener n (Suc k) e1 s1 = (err, e', s')"
        using "2.prems"(1) True c by (simp add: Let_def)
      have "vetoInv e1" using cl by simp
      from "2.IH"(1)[OF refl True c[symmetric] _ _ f this] None
      have ih: "vetoInv e' \<and> eventType e' = eventType e1
        \<and> (phaseOf (hist e') \<noteq> Forced \<longrightarrow> err = None \<and> regs s' = regs s1 \<and> phaseOf (hist e1) \<noteq> Forced)"
        by simp
      show ?thesis using ih cl p1 by (auto simp: noted_def)
    next
      case (Some x)
      then have eq: "err = Some x" "e' = e1" "s' = s1" using "2.prems"(1) True c by (auto simp: Let_def)
      have "phaseOf (hist e1) = Forced" using cl Some by auto
      then show ?thesis using cl eq by (simp add: noted_def)
    qed
  next
    case False
    then have f: "forEachListener n (Suc k) e s = (err, e', s')"
      using "2.prems"(1) by (auto simp: Let_def)
    show ?thesis using "2.IH"(2)[OF refl False f "2.prems"(2)] by simp
  qed
qed

lemma fireEvent_logged:
  assumes "fireEvent e s = (err, e', s')"
  shows "fired s' \<noteq> [] \<and> snd (last (fired s')) = hist e'"
  using assms
  by (auto simp: fireEvent_def logEvent_def split: prod.splits option.splits)

lemma fireEvent_vetoed:
  assumes "fireEvent e s = (err, e', s')" and "hist e = []" and "phaseOf (hist e') = Vetoed"
  shows "err = None \<and> nodes s' = nodes s \<and> edges s' = edges s \<and> activeItem s' = activeItem s"
proof -
  let ?n = "length (listenersOf s (eventType e))"
  obtain err1 e1 s1 where f: "forEachListener ?n 0 e s = (err1, e1, s1)"
    by (cases "forEachListener ?n 0 e s") auto
  have v0: "vetoInv e" using assms(2) by (simp add: vetoInv_def phaseOf_def)
  note fe = forEachListener_veto[OF f v0]
  show ?thesis
  proof (cases err1)
    case None
    let ?e2 = "noted LoopDone e1"
    obtain err2 e2 s2 where d: "defaultAction ?e2 s1 = (err2, e2, s2)"
      by (cases "defaultAction ?e2 s1") auto
    have r: "err = err2" "e' = e2" "s' = logEvent e2 s2"
      using assms(1) f None d by (auto simp: fireEvent_def)
    have p2: "phaseOf (hist ?e2) = phaseOf (hist e1)" by (simp add: noted_def phaseOf_snoc)
    have "phaseOf (hist e2) = phaseOf (hist ?e2)"
      using d by (auto simp: defaultAction_def noted_def phaseOf_def split: option.splits prod.splits)
    then have v: "phaseOf (hist e1) = Vetoed" using assms(3) r p2 by simp
    then have "closure e1 = None" using fe by (simp add: vetoInv_def)
    then have "err2 = None" "s2 = s1" using d by (auto simp: defaultAction_def noted_def)
    moreover have "regs s1 = regs s" using fe v by simp
    ultimately show ?thesis using r by (simp add: regs_def logEvent_def)
  next
    case (Some x)
    then have r: "e' = e1" using assms(1) f by (auto simp: fireEvent_def)
    have "phaseOf (hist e1) = Forced" using fe Some by auto
    then show ?thesis using assms(3) r by simp
  qed
qed

lemma fire_vetoed:
  assumes "fire (newPaperEvent ty f) s = (err, s')"
    and "snd (last (fired s')) = pre @ Call PreventDefault # post"
    and "Call DefaultAction \<notin> set pre"
  shows "err = None \<and> nodes s' = nodes s \<and> edges s' = edges s \<and> activeItem s' = activeItem s"
proof -
  obtain e' where f: "fireEvent (newPaperEvent ty f) s = (err, e', s')"
    using assms(1) by (auto simp: fire_def split: prod.splits)
  have "hist e' = pre @ Call PreventDefault # post"
    using fireEvent_logged[OF f] assms(2) by simp
  then have "phaseOf (hist e') = Vetoed" using assms(3) by (rule phaseOf_veto_split)
  with f show ?thesis by (intro fireEvent_vetoed) (auto simp: newPaperEvent_def)
qed

text \<open>
  C6, as the spec states it, fails for the setters of an edge, which are mutations that
  fire an event (move-edge) as well: the registry entry is assigned before the event is
  fired, so a listener that calls \<open>preventDefault\<close> stops the redraw only. On
  \<open>paperVetoEdge\<close> the setter of the source of \<open>e1\<close> returns, the listener vetoed, and
  the edge in the registry has the new source.
\<close>

theorem edge_setter_veto_counterexample:
  "map_of (edges paperVetoEdge) ''e1''
     = Some \<lparr>e_id = ''e1'', e_source = NodeRef ''n1'',
             e_target = LiteralPoint \<lparr>cx = 200, cy = 200\<rparr>, e_coords = []\<rparr>
   \<and> fst (perform (SetEdgeSource ''e1'' (LiteralPoint \<lparr>cx = 100, cy = 100\<rparr>)) paperVetoEdge) = None
   \<and> last (fired (snd (perform (SetEdgeSource ''e1'' (LiteralPoint \<lparr>cx = 100, cy = 100\<rparr>)) paperVetoEdge)))
       = (MoveEdgeEvt, [Invoked vetoer, Call PreventDefault, LoopDone])
   \<and> map_of (edges (snd (perform (SetEdgeSource ''e1'' (LiteralPoint \<lparr>cx = 100, cy = 100\<rparr>)) paperVetoEdge))) ''e1''
     = Some \<lparr>e_id = ''e1'', e_source = LiteralPoint \<lparr>cx = 100, cy = 100\<rparr>,
             e_target = LiteralPoint \<lparr>cx = 200, cy = 200\<rparr>, e_coords = []\<rparr>"
  by (simp add: paperVetoEdge_eval paperE1_eval operation_defs pipeline_defs vetoer_def Let_def)

text \<open>
  C6, amended: for the mutations that are deferred to the closure of their event
  (\<open>addNode\<close>, \<open>removeNode\<close>, \<open>addEdge\<close>, \<open>removeEdge\<close>, \<open>updateActiveItem\<close>, a node
  move): when the call fired its event and, in that firing, a listener called
  \<open>preventDefault\<close> with no call of \<open>defaultAction\<close> before it, the call returns
  without an exception and the node registry, the edge registry and the active item are
  as they were.
\<close>

theorem preventDefault_keeps_registries:
  assumes "deferred m" and "perform m s = (err, s')" and "fired s' \<noteq> fired s"
    and "snd (last (fired s')) = pre @ Call PreventDefault # post"
    and "Call DefaultAction \<notin> set pre"
  shows "err = None \<and> nodes s' = nodes s \<and> edges s' = edges s \<and> activeItem s' = activeItem s"
proof (cases m)
  case (AddNode node)
  then show ?thesis using assms fire_vetoed[of AddNodeEvt _ s err s' pre post]
    by (auto simp: addNode_def Let_def split: if_splits)
next
  case (RemoveNode i)
  then show ?thesis using assms fire_vetoed[of RemoveNodeEvt _ s err s' pre post]
    by (auto simp: removeNode_def split: if_splits)
next
  case (AddEdge edge)
  then show ?thesis using assms fire_vetoed[of AddEdgeEvt _ s err s' pre post]
    by (auto simp: addEdge_def split: if_splits)
next
  case (RemoveEdge i)
  then show ?thesis using assms fire_vetoed[of RemoveEdgeEvt _ s err s' pre post]
    by (auto simp: removeEdge_def split: if_splits)
next
  case (UpdateActiveItem item)
  then show ?thesis using assms fire_vetoed[of UpdateActiveItemEvt _ s err s' pre post]
    by (auto simp: updateActiveItem_def Let_def split: if_splits)
next
  case (SetNodeCoords i c)
  then show ?thesis using assms fire_vetoed[of MoveNodeEvt _ s err s' pre post]
    by (auto simp: setNodeCoords_def split: if_splits option.splits)
qed (use assms in auto)

theorem preventDefault_keeps_registries_witness:
  "deferred (AddNode nodeN3)
   \<and> perform (AddNode nodeN3) (addListener AddNodeEvt vetoer (newPaper 20))
       = (None, (addListener AddNodeEvt vetoer (newPaper 20))
            \<lparr>fired := [(AddNodeEvt, [Invoked vetoer, Call PreventDefault, LoopDone])]\<rparr>)
   \<and> nodes (addListener AddNodeEvt vetoer (newPaper 20)) = []"
  using preventDefault_keeps_registries
    [of "AddNode nodeN3" "addListener AddNodeEvt vetoer (newPaper 20)" None
        "(addListener AddNodeEvt vetoer (newPaper 20))
            \<lparr>fired := [(AddNodeEvt, [Invoked vetoer, Call PreventDefault, LoopDone])]\<rparr>"
        "[Invoked vetoer]" "[LoopDone]"]
  by (simp add: operation_defs pipeline_defs vetoer_def nodeN3_def Let_def)

section \<open>Failures after a change\<close>

text \<open>The failures of the existence checks come first and change nothing.\<close>

lemma existence_checks_change_nothing:
  "hasNode s (in_id node) \<Longrightarrow> addNode node s = (Some E_DUP_ID, s)"
  "\<not> hasNode s i \<Longrightarrow> removeNode i s = (Some E_NO_ID, s)"
  "hasEdge s (ie_id edge) \<Longrightarrow> addEdge edge s = (Some E_DUP_ID, s)"
  "\<not> hasEdge s (ie_id edge) \<Longrightarrow>
     \<not> (ie_element edge \<and> resolves s (ie_source edge) \<and> resolves s (ie_target edge)) \<Longrightarrow>
     addEdge edge s = (Some E_INV_ELEM, s)"
  "\<not> hasEdge s i \<Longrightarrow> removeEdge i s = (Some E_NO_ID, s)"
  "\<not> hasNode s i \<Longrightarrow> setNodeCoords i c s = (Some E_NO_ID, s)"
  "\<not> hasEdge s i \<Longrightarrow> setEdgeSource i p s = (Some E_NO_ID, s)"
  "\<not> hasEdge s i \<Longrightarrow> setEdgeTarget i p s = (Some E_NO_ID, s)"
  "\<not> hasEdge s i \<Longrightarrow> setEdgeCoords i cs s = (Some E_NO_ID, s)"
  by (auto simp: addNode_def removeNode_def addEdge_def removeEdge_def setNodeCoords_def
      setEdgeSource_def setEdgeTarget_def setEdgeCoords_def hasNode_def hasEdge_def)

text \<open>
  C2 at two failing inputs. Re-anchoring the edge \<open>e1\<close> to a node that does not exist
  fails with \<open>E_NO_ID\<close>, raised by the route update after the registry entry was
  assigned: the edge keeps the dangling source. Adding a node whose handle has no
  element fails with \<open>E_INV_ELEM\<close>, raised in the closure after the add-node event
  was fired and the node was stored.
\<close>

theorem failure_after_registry_change:
  "map_of (edges paperE1) ''e1''
     = Some \<lparr>e_id = ''e1'', e_source = NodeRef ''n1'',
             e_target = LiteralPoint \<lparr>cx = 200, cy = 200\<rparr>, e_coords = []\<rparr>
   \<and> setEdgeSource ''e1'' (NodeRef ''ghost'') paperE1
     = (Some E_NO_ID,
        paperE1\<lparr>edges := [(''e1'', \<lparr>e_id = ''e1'', e_source = NodeRef ''ghost'',
             e_target = LiteralPoint \<lparr>cx = 200, cy = 200\<rparr>, e_coords = []\<rparr>)]\<rparr>)
   \<and> addNode nodeNoElement paperN1
     = (Some E_INV_ELEM,
        paperN1\<lparr>nodes := nodes paperN1 @ [(''n2'', \<lparr>n_id = ''n2'', n_coords = \<lparr>cx = 0, cy = 0\<rparr>,
                     n_element = False, n_transform = None\<rparr>)],
                fired := fired paperN1 @ [(AddNodeEvt, [LoopDone, RanDefault])]\<rparr>)"
  by (simp add: paperE1_eval paperN1_eval nodeNoElement_def operation_defs pipeline_defs Let_def)

section \<open>Removing a node\<close>

lemma removeEdge_without_listeners:
  assumes "listenersOf s RemoveEdgeEvt = []" and "map_of (edges s) k = Some edge"
  shows "removeEdge k s =
    (None, s\<lparr>edges := AList.delete k (edges s),
              fired := fired s @ [(RemoveEdgeEvt, [LoopDone, RanDefault])]\<rparr>)"
  using assms
  by (simp add: removeEdge_def hasEdge_def fire_without_listeners removeEdgeAction_def)

lemma map_of_distinct_keys:
  "distinct (map fst al) \<Longrightarrow> (k, v) \<in> set al \<Longrightarrow> map_of al k = Some v"
  by simp

lemma removeEdgesOf_without_listeners:
  assumes "listenersOf s RemoveEdgeEvt = []" and "distinct (map fst (edges s))"
    and "distinct ks" and "set ks \<subseteq> fst ` set (edges s)"
  shows "\<exists>s'. removeEdgesOf i ks s = (None, s')
      \<and> edges s' = filter (\<lambda>kv. \<not> (fst kv \<in> set ks \<and> usesNode i (snd kv))) (edges s)
      \<and> nodes s' = nodes s \<and> listeners s' = listeners s \<and> activeItem s' = activeItem s
      \<and> gridSize s' = gridSize s"
  using assms
proof (induction ks arbitrary: s)
  case Nil
  then show ?case by simp
next
  case (Cons k rest)
  from Cons.prems(4) obtain edge where in_e: "(k, edge) \<in> set (edges s)" by auto
  then have look: "map_of (edges s) k = Some edge" using Cons.prems(2) by simp
  have only: "\<And>kv. kv \<in> set (edges s) \<Longrightarrow> fst kv = k \<Longrightarrow> snd kv = edge"
    using Cons.prems(2) in_e by (metis eq_key_imp_eq_value prod.collapse)
  show ?case
  proof (cases "usesNode i edge")
    case True
    let ?s1 = "s\<lparr>edges := AList.delete k (edges s),
              fired := fired s @ [(RemoveEdgeEvt, [LoopDone, RanDefault])]\<rparr>"
    have r: "removeEdge k s = (None, ?s1)"
      using removeEdge_without_listeners[OF Cons.prems(1) look] .
    have l1: "listenersOf ?s1 RemoveEdgeEvt = []" using Cons.prems(1) by (simp add: listenersOf_def)
    have d1: "distinct (map fst (edges ?s1))" using Cons.prems(2) by (simp add: AList.distinct_delete)
    have dr: "distinct rest" using Cons.prems(3) by simp
    have sub: "set rest \<subseteq> fst ` set (edges ?s1)"
    proof
      fix x assume x: "x \<in> set rest"
      then have "x \<noteq> k" using Cons.prems(3) by auto
      moreover obtain b where "(x, b) \<in> set (edges s)" using x Cons.prems(4) by auto
      ultimately have "(x, b) \<in> set (edges ?s1)" by (simp add: AList.delete_eq)
      then show "x \<in> fst ` set (edges ?s1)" by force
    qed
    from Cons.IH[OF l1 d1 dr sub] obtain s' where
      s': "removeEdgesOf i rest ?s1 = (None, s')"
        "edges s' = filter (\<lambda>kv. \<not> (fst kv \<in> set rest \<and> usesNode i (snd kv))) (edges ?s1)"
        "nodes s' = nodes ?s1" "listeners s' = listeners ?s1" "activeItem s' = activeItem ?s1"
        "gridSize s' = gridSize ?s1"
      by blast
    have "edges s' = filter (\<lambda>kv. \<not> (fst kv \<in> set (k # rest) \<and> usesNode i (snd kv))) (edges s)"
      using s'(2) True only by (auto simp: AList.delete_eq intro!: filter_cong)
    moreover have "removeEdgesOf i (k # rest) s = (None, s')"
      using look True r s'(1) by simp
    ultimately show ?thesis using s' by simp
  next
    case False
    have dr: "distinct rest" using Cons.prems(3) by simp
    have sub: "set rest \<subseteq> fst ` set (edges s)" using Cons.prems(4) by simp
    from Cons.IH[OF Cons.prems(1,2) dr sub] obtain s' where
      s': "removeEdgesOf i rest s = (None, s')"
        "edges s' = filter (\<lambda>kv. \<not> (fst kv \<in> set rest \<and> usesNode i (snd kv))) (edges s)"
        "nodes s' = nodes s" "listeners s' = listeners s" "activeItem s' = activeItem s"
        "gridSize s' = gridSize s"
      by blast
    have "edges s' = filter (\<lambda>kv. \<not> (fst kv \<in> set (k # rest) \<and> usesNode i (snd kv))) (edges s)"
      using s'(2) False only by (auto intro!: filter_cong)
    moreover have "removeEdgesOf i (k # rest) s = (None, s')"
      using look False s'(1) by simp
    ultimately show ?thesis using s' by simp
  qed
qed

text \<open>
  C7 at a failing input: the node \<open>n2\<close> is present in \<open>paperBroken\<close>, left there by
  the failed \<open>addNode\<close> of a handle without element, and there are no listeners;
  \<open>removeNode\<close> raises a TypeError and the node stays in the registry.
\<close>

theorem removeNode_without_element_fails:
  "hasNode paperBroken ''n2'' \<and> listeners paperBroken = []
   \<and> fst (removeNode ''n2'' paperBroken) = Some TypeError
   \<and> hasNode (snd (removeNode ''n2'' paperBroken)) ''n2''"
  by (simp add: paperBroken_eval operation_defs pipeline_defs Let_def)

text \<open>
  What holds when the handle of the node has an element, with no listener registered
  for remove-node and remove-edge (and the keys of the edge registry unique, as in any
  object): \<open>removeNode\<close> returns, removes the node from the node registry, removes
  exactly the edges whose source or target is a reference to it, and leaves every other
  node and edge, and the active item, unchanged.
\<close>

lemma removeNode_removes_node_and_its_edges:
  assumes "map_of (nodes s) i = Some node" and "n_element node"
    and "listenersOf s RemoveNodeEvt = []" and "listenersOf s RemoveEdgeEvt = []"
    and "distinct (map fst (edges s))"
  shows "\<exists>s'. removeNode i s = (None, s')
      \<and> nodes s' = AList.delete i (nodes s)
      \<and> edges s' = filter (\<lambda>kv. \<not> usesNode i (snd kv)) (edges s)
      \<and> activeItem s' = activeItem s"
proof -
  have sub: "set (map fst (edges s)) \<subseteq> fst ` set (edges s)" by simp
  from removeEdgesOf_without_listeners[OF assms(4,5) assms(5) sub, of i] obtain s1 where
    s1: "removeEdgesOf i (map fst (edges s)) s = (None, s1)"
      "edges s1 = filter (\<lambda>kv. \<not> (fst kv \<in> set (map fst (edges s)) \<and> usesNode i (snd kv))) (edges s)"
      "nodes s1 = nodes s" "listeners s1 = listeners s" "activeItem s1 = activeItem s"
    by blast
  have e: "edges s1 = filter (\<lambda>kv. \<not> usesNode i (snd kv)) (edges s)"
    unfolding s1(2) by (rule filter_cong) auto
  have "removeNodeAction i s = (None, s1\<lparr>nodes := AList.delete i (nodes s1)\<rparr>)"
    using s1 assms(1,2) by (simp add: removeNodeAction_def)
  then show ?thesis
    using assms(1,3) e s1
    by (simp add: removeNode_def hasNode_def fire_without_listeners)
qed

lemma removeNode_removes_node_and_its_edges_example:
  "\<exists>s'. removeNode ''n1'' paperE1 = (None, s') \<and> nodes s' = [] \<and> edges s' = []
      \<and> activeItem s' = None"
  using removeNode_removes_node_and_its_edges
    [of paperE1 "''n1''" "\<lparr>n_id = ''n1'', n_coords = \<lparr>cx = 60, cy = 40\<rparr>,
                 n_element = True, n_transform = Some \<lparr>cx = 60, cy = 40\<rparr>\<rparr>"]
  by (simp add: paperE1_eval listenersOf_def usesNode_def)

section \<open>Invariants of the listener loop\<close>

lemma act_simps:
  "act DefaultAction e s = defaultAction (noted (Call DefaultAction) e) s"
  "act PreventDefault e s = (None, preventDefault (noted (Call PreventDefault) e), s)"
  "act StopPropagation e s = (None, stopPropagation (noted (Call StopPropagation) e), s)"
  "act (AddListener ty l) e s = (None, noted (Call (AddListener ty l)) e, addListener ty l s)"
  "act (RemoveListener ty l) e s = (None, noted (Call (RemoveListener ty l)) e, removeListener ty l s)"
  by (auto simp: act_def split: prod.splits option.splits)

lemma callListener_Cons:
  "callListener (a # as) e s =
     (case act a e s of (Some err, e', s') \<Rightarrow> (Some err, e', s')
                      | (None, e', s') \<Rightarrow> callListener as e' s')"
  by (cases a) (auto simp: act_simps split: prod.splits option.splits)

lemma callListener_invariant:
  assumes "callListener as e s = (err, e', s')" and "R None e s"
    and "\<And>a e s err e' s'. a \<in> set as \<Longrightarrow> R None e s \<Longrightarrow> act a e s = (err, e', s') \<Longrightarrow> R err e' s'"
  shows "R err e' s'"
  using assms
proof (induction as arbitrary: e s)
  case Nil
  then show ?case by simp
next
  case (Cons a as)
  obtain err1 e1 s1 where a: "act a e s = (err1, e1, s1)" by (cases "act a e s") auto
  have r1: "R err1 e1 s1" using Cons.prems(3)[OF _ Cons.prems(2) a] by simp
  show ?case
  proof (cases err1)
    case None
    then have c: "callListener as e1 s1 = (err, e', s')"
      using Cons.prems(1) a by (simp add: callListener_Cons del: callListener.simps)
    have r: "R None e1 s1" using r1 None by simp
    show ?thesis
    proof (rule Cons.IH[OF c r])
      fix b e s err e' s'
      assume "b \<in> set as" "R None e s" "act b e s = (err, e', s')"
      then show "R err e' s'" using Cons.prems(3)[of b e s err e' s'] by simp
    qed
  next
    case (Some x)
    then have "err = err1" "e' = e1" "s' = s1"
      using Cons.prems(1) a by (simp_all add: callListener_Cons del: callListener.simps)
    then show ?thesis using r1 by simp
  qed
qed

lemma forEachListener_invariant:
  assumes "forEachListener n k e s = (err, e', s')" and "R None e s"
    and "\<And>a e s err e' s'. R None e s \<Longrightarrow> act a e s = (err, e', s') \<Longrightarrow> R err e' s'"
    and "\<And>l e s. R None e s \<Longrightarrow> canPropagate e \<Longrightarrow> R None (noted (Invoked l) e) s"
  shows "R err e' s'"
  using assms(1,2)
proof (induction n k e s rule: forEachListener.induct)
  case (1 k e s)
  then show ?case by simp
next
  case (2 n k e s)
  let ?ls = "listenersOf s (eventType e)"
  show ?case
  proof (cases "k < length ?ls \<and> canPropagate e")
    case True
    let ?e1 = "noted (Invoked (?ls ! k)) e"
    obtain err1 e1 s1 where c: "callListener (body (?ls ! k)) ?e1 s = (err1, e1, s1)"
      by (cases "callListener (body (?ls ! k)) ?e1 s") auto
    have r0: "R None ?e1 s" using assms(4)[OF "2.prems"(2)] True by simp
    have r1: "R err1 e1 s1"
      by (rule callListener_invariant[where R = R, OF c r0]) (rule assms(3))
    show ?thesis
    proof (cases err1)
      case None
      then have f: "forEachListener n (Suc k) e1 s1 = (err, e', s')"
        using "2.prems"(1) True c by (simp add: Let_def)
      show ?thesis using "2.IH"(1)[OF refl True c[symmetric] _ _ f] r1 None by simp
    next
      case (Some x)
      then have "err = err1" "e' = e1" "s' = s1" using "2.prems"(1) True c by (auto simp: Let_def)
      then show ?thesis using r1 by simp
    qed
  next
    case False
    then have f: "forEachListener n (Suc k) e s = (err, e', s')"
      using "2.prems"(1) by (auto simp: Let_def)
    show ?thesis using "2.IH"(2)[OF refl False f "2.prems"(2)] .
  qed
qed

section \<open>Stopping the propagation\<close>










section \<open>Which listeners a firing invokes\<close>

lemma invoked_append: "invoked (h @ h') = invoked h @ invoked h'"
  by (induction h rule: invoked.induct) auto

lemma listenersOf_addListener_other:
  "ty' \<noteq> ty \<Longrightarrow> listenersOf (addListener ty' l s) ty = listenersOf s ty"
  by (simp add: addListener_def listenersOf_def Let_def update_conv')

lemma listenersOf_addListener_same:
  "\<exists>extra. listenersOf (addListener ty l s) ty = listenersOf s ty @ extra"
  by (simp add: addListener_def listenersOf_def Let_def update_conv')

lemma listenersOf_removeListener_other:
  "ty' \<noteq> ty \<Longrightarrow> listenersOf (removeListener ty' l s) ty = listenersOf s ty"
  by (simp add: removeListener_def listenersOf_def update_conv' split: option.splits)

lemma act_effect:
  assumes "act a e s = (None, e', s')" and "closure e = None \<or> closure e = Some f"
    and "keeps ty f" and "noRemoval ty [a]"
  shows "invoked (hist e') = invoked (hist e)
    \<and> canPropagate e' = (canPropagate e \<and> a \<noteq> StopPropagation)
    \<and> (\<exists>extra. listenersOf s' ty = listenersOf s ty @ extra)
    \<and> (closure e' = None \<or> closure e' = Some f) \<and> eventType e' = eventType e"
proof (cases a)
  case DefaultAction
  show ?thesis
  proof (cases "closure e")
    case None
    then show ?thesis using assms(1) DefaultAction
      by (auto simp: act_simps defaultAction_def noted_def invoked_append)
  next
    case (Some g)
    then have g: "g = f" using assms(2) by simp
    have "listenersOf (snd (f s)) ty = listenersOf s ty" using assms(3) by (simp add: keeps_def)
    then show ?thesis using assms(1) DefaultAction Some g
      by (cases "f s"; cases "fst (f s)") (auto simp: act_simps defaultAction_def noted_def invoked_append)
  qed
next
  case PreventDefault
  then show ?thesis using assms(1)
    by (auto simp: act_simps preventDefault_def noted_def invoked_append)
next
  case StopPropagation
  then show ?thesis using assms(1,2)
    by (auto simp: act_simps stopPropagation_def noted_def invoked_append)
next
  case (AddListener ty' l)
  have "\<exists>extra. listenersOf (addListener ty' l s) ty = listenersOf s ty @ extra"
    using listenersOf_addListener_same[of ty l s] listenersOf_addListener_other[of ty' ty l s]
    by (cases "ty' = ty") auto
  then show ?thesis using assms(1,2) AddListener
    by (auto simp: act_simps noted_def invoked_append)
next
  case (RemoveListener ty' l)
  then have "ty' \<noteq> ty" using assms(4) by (auto simp: noRemoval_def)
  then have "listenersOf (removeListener ty' l s) ty = listenersOf s ty"
    by (rule listenersOf_removeListener_other)
  then show ?thesis using assms(1,2) RemoveListener
    by (auto simp: act_simps noted_def invoked_append)
qed

lemma callListener_effect:
  assumes "callListener as e s = (None, e', s')" and "closure e = None \<or> closure e = Some f"
    and "keeps ty f" and "noRemoval ty as"
  shows "invoked (hist e') = invoked (hist e)
    \<and> canPropagate e' = (canPropagate e \<and> StopPropagation \<notin> set as)
    \<and> (\<exists>extra. listenersOf s' ty = listenersOf s ty @ extra)
    \<and> (closure e' = None \<or> closure e' = Some f) \<and> eventType e' = eventType e"
  using assms(1,2,4)
proof (induction as arbitrary: e s)
  case Nil
  then show ?case by simp
next
  case (Cons a as)
  obtain err1 e1 s1 where a: "act a e s = (err1, e1, s1)" by (cases "act a e s") auto
  have n1: "err1 = None" and c: "callListener as e1 s1 = (None, e', s')"
    using Cons.prems(1) a by (cases err1; simp add: callListener_Cons del: callListener.simps)+
  have na: "noRemoval ty [a]" and nas: "noRemoval ty as"
    using Cons.prems(3) by (auto simp: noRemoval_def)
  note ae = act_effect[OF a[unfolded n1] Cons.prems(2) assms(3) na]
  have cl: "closure e1 = None \<or> closure e1 = Some f" using ae by simp
  note ih = Cons.IH[OF c cl nas]
  from ae obtain x1 where x1: "listenersOf s1 ty = listenersOf s ty @ x1" by blast
  from ih obtain x2 where x2: "listenersOf s' ty = listenersOf s1 ty @ x2" by blast
  have "listenersOf s' ty = listenersOf s ty @ (x1 @ x2)" using x1 x2 by simp
  then have ex: "\<exists>extra. listenersOf s' ty = listenersOf s ty @ extra" ..
  show ?case using ae ih ex by auto
qed

lemma uptoStop_drop:
  "k < length ls \<Longrightarrow> uptoStop (drop k ls) =
     (if StopPropagation \<in> set (body (ls ! k)) then [ls ! k] else ls ! k # uptoStop (drop (Suc k) ls))"
  by (simp add: Cons_nth_drop_Suc[symmetric])

lemma forEachListener_effect:
  assumes "forEachListener n k e s = (None, e', s')" and "eventType e = ty"
    and "listenersOf s ty = ls0 @ extra" and "k + n = length ls0"
    and "closure e = None \<or> closure e = Some f" and "keeps ty f"
    and "\<forall>l \<in> set ls0. noRemoval ty (body l)"
  shows "invoked (hist e') = invoked (hist e) @ (if canPropagate e then uptoStop (drop k ls0) else [])
    \<and> (closure e' = None \<or> closure e' = Some f) \<and> eventType e' = ty"
  using assms(1,2,3,4,5)
proof (induction n arbitrary: k e s extra)
  case 0
  then show ?case by simp
next
  case (Suc n)
  have k: "k < length ls0" using Suc.prems(4) by simp
  then have nth: "listenersOf s (eventType e) ! k = ls0 ! k" and len: "k < length (listenersOf s (eventType e))"
    using Suc.prems(2,3) by (simp_all add: nth_append)
  let ?l = "ls0 ! k"
  have kn: "Suc k + n = length ls0" using Suc.prems(4) by simp
  show ?case
  proof (cases "canPropagate e")
    case True
    let ?e1 = "noted (Invoked ?l) e"
    obtain err1 e1 s1 where c: "callListener (body ?l) ?e1 s = (err1, e1, s1)"
      by (cases "callListener (body ?l) ?e1 s") auto
    have n1: "err1 = None" and f: "forEachListener n (Suc k) e1 s1 = (None, e', s')"
      using Suc.prems(1) True len nth c by (cases err1; simp add: Let_def)+
    have cl: "closure ?e1 = None \<or> closure ?e1 = Some f" using Suc.prems(5) by (simp add: noted_def)
    have nr: "noRemoval ty (body ?l)" using assms(7) k by simp
    note ce = callListener_effect[OF c[unfolded n1] cl assms(6) nr]
    from ce obtain x1 where "listenersOf s1 ty = listenersOf s ty @ x1" by blast
    then have ls1: "listenersOf s1 ty = ls0 @ (extra @ x1)" using Suc.prems(3) by simp
    have ty1: "eventType e1 = ty" using ce Suc.prems(2) by (simp add: noted_def)
    have cl1: "closure e1 = None \<or> closure e1 = Some f" using ce by simp
    note ih = Suc.IH[OF f ty1 ls1 kn cl1]
    have i1: "invoked (hist e1) = invoked (hist e) @ [?l]"
      using ce by (simp add: noted_def invoked_append)
    have p1: "canPropagate e1 = (StopPropagation \<notin> set (body ?l))"
      using ce True by (simp add: noted_def)
    show ?thesis using ih i1 p1 True uptoStop_drop[OF k] by simp
  next
    case False
    then have f: "forEachListener n (Suc k) e s = (None, e', s')"
      using Suc.prems(1) by (simp add: Let_def)
    show ?thesis using Suc.IH[OF f Suc.prems(2,3) kn Suc.prems(5)] False by simp
  qed
qed

lemma onceInv_act:
  assumes "onceInv None e s" and "act a e s = (err, e', s')"
  shows "onceInv err e' s'"
proof (cases a)
  case DefaultAction
  show ?thesis
  proof (cases "closure e")
    case None
    then show ?thesis using assms DefaultAction
      by (auto simp: act_simps defaultAction_def noted_def onceInv_def occurrences_def)
  next
    case (Some g)
    then show ?thesis using assms DefaultAction
      by (cases "g s"; cases "fst (g s)")
         (auto simp: act_simps defaultAction_def noted_def onceInv_def occurrences_def)
  qed
next
  case PreventDefault
  then show ?thesis using assms
    by (auto simp: act_simps preventDefault_def noted_def onceInv_def occurrences_def)
next
  case StopPropagation
  then show ?thesis using assms
    by (auto simp: act_simps stopPropagation_def noted_def onceInv_def occurrences_def)
next
  case (AddListener ty l)
  then show ?thesis using assms
    by (auto simp: act_simps noted_def onceInv_def occurrences_def)
next
  case (RemoveListener ty l)
  then show ?thesis using assms
    by (auto simp: act_simps noted_def onceInv_def occurrences_def)
qed

lemma onceInv_Invoked:
  assumes "onceInv None e s"
  shows "onceInv None (noted (Invoked l) e) s"
  using assms by (auto simp: noted_def onceInv_def occurrences_def)

lemma forEachListener_onceInv:
  assumes "forEachListener n k e s = (err, e', s')" and "onceInv None e s"
  shows "onceInv err e' s'"
  by (rule forEachListener_invariant[where R = onceInv, OF assms])
     (erule (1) onceInv_act, erule onceInv_Invoked)

lemma uptoStop_drop0: "uptoStop (drop 0 ls) = uptoStop ls"
  by simp

text \<open>
  C3 at a failing input: the loop runs over the live list, not over a snapshot. With
  \<open>once\<close>, \<open>idle2\<close> and \<open>idle3\<close> registered for add-node, \<open>once\<close> removes itself
  while it runs, the list shifts, and \<open>idle2\<close>, registered at the start of the firing
  and never removed, is not invoked in it although the propagation was never stopped.
\<close>

theorem self_removing_listener_skips_next:
  "listenersOf paperOnce AddNodeEvt = [once, idle2, idle3]
   \<and> fired (snd (addNode nodeN3 paperOnce))
      = [(AddNodeEvt, [Invoked once, Call (RemoveListener AddNodeEvt (Listener 1 [])),
                       Invoked idle3, LoopDone, RanDefault])]"
  by (simp add: paperOnce_eval operation_defs pipeline_defs nodeN3_def listener_defs Let_def)

text \<open>
  What holds of a firing that returns, when no listener registered for the type at the
  start removes a listener of that type and the closure leaves the list of that type
  alone: the listeners invoked are those registered at the start of the firing, in
  registration order, up to and including the first that stops the propagation; a
  listener added during the firing is not invoked in it.
\<close>

lemma listeners_invoked_in_registration_order:
  assumes "fireEvent (newPaperEvent ty f) s = (None, e', s')"
    and "\<forall>l \<in> set (listenersOf s ty). \<forall>l'. RemoveListener ty l' \<notin> set (body l)"
    and "\<forall>s1. listenersOf (snd (f s1)) ty = listenersOf s1 ty"
  shows "invoked (hist e') = uptoStop (listenersOf s ty)
    \<and> occurrences LoopDone (hist e') = 1 \<and> occurrences RanDefault (hist e') \<le> 1"
proof -
  let ?e = "newPaperEvent ty f"
  let ?ls = "listenersOf s ty"
  have ty: "eventType ?e = ty" by (simp add: newPaperEvent_def)
  obtain err1 e1 s1 where l: "forEachListener (length ?ls) 0 ?e s = (err1, e1, s1)"
    by (cases "forEachListener (length ?ls) 0 ?e s") auto
  have n1: "err1 = None" using assms(1) l ty by (cases err1) (auto simp: fireEvent_def)
  obtain err2 e2 s2 where d: "defaultAction (noted LoopDone e1) s1 = (err2, e2, s2)"
    by (cases "defaultAction (noted LoopDone e1) s1") auto
  have r: "e' = e2" using assms(1) l n1 d ty by (auto simp: fireEvent_def)
  have h2: "hist e2 = hist e1 @ [LoopDone] @ (if closure e1 = None then [] else [RanDefault])"
    using d by (cases "closure e1"; cases "the (closure e1) s1"; cases "fst (the (closure e1) s1)")
      (auto simp: defaultAction_def noted_def)
  have k: "keeps ty f" using assms(3) by (simp add: keeps_def)
  have nr: "\<forall>l \<in> set ?ls. noRemoval ty (body l)" using assms(2) by (simp add: noRemoval_def)
  have "invoked (hist e1) = invoked (hist ?e) @ (if canPropagate ?e then uptoStop (drop 0 ?ls) else [])
    \<and> (closure e1 = None \<or> closure e1 = Some f) \<and> eventType e1 = ty"
    by (rule forEachListener_effect[where extra = "[]" and f = f, OF l[unfolded n1] ty _ _ _ k nr])
       (simp_all add: newPaperEvent_def)
  then have i1: "invoked (hist e1) = uptoStop ?ls" by (simp add: newPaperEvent_def)
  have "onceInv None ?e s" by (simp add: onceInv_def newPaperEvent_def occurrences_def)
  from forEachListener_onceInv[OF l this] have o: "onceInv None e1 s1" using n1 by simp
  have a: "invoked (hist e') = uptoStop ?ls" using i1 h2 r by (simp add: invoked_append)
  have b: "occurrences LoopDone (hist e') = 1" using o h2 r by (simp add: onceInv_def occurrences_def)
  have c: "occurrences RanDefault (hist e') \<le> 1" using o h2 r by (auto simp: onceInv_def occurrences_def)
  show ?thesis using a b c by simp
qed

lemma fireEvent_paperAdder:
  "fireEvent (newPaperEvent AddNodeEvt (addNodeAction nodeN3 60 40)) paperAdder
    = (None,
       \<lparr>eventType = AddNodeEvt, canPropagate = True, closure = None,
        hist = [Invoked adder, Call (AddListener AddNodeEvt (Listener 3 [])), Invoked idle2,
                LoopDone, RanDefault]\<rparr>,
       paperAdder\<lparr>nodes := [(''n3'', \<lparr>n_id = ''n3'', n_coords = \<lparr>cx = 65, cy = 47\<rparr>,
            n_element = True, n_transform = Some \<lparr>cx = 60, cy = 40\<rparr>\<rparr>)],
          listeners := [(AddNodeEvt, [adder, idle2, idle3])],
          fired := [(AddNodeEvt, [Invoked adder, Call (AddListener AddNodeEvt (Listener 3 [])),
                Invoked idle2, LoopDone, RanDefault])]\<rparr>)"
  by (simp add: paperAdder_eval operation_defs pipeline_defs nodeN3_def listener_defs Let_def)

lemma listeners_invoked_in_registration_order_example:
  "invoked (hist (fst (snd (fireEvent (newPaperEvent AddNodeEvt (addNodeAction nodeN3 60 40)) paperAdder))))
     = [adder, idle2]
   \<and> listenersOf paperAdder AddNodeEvt = [adder, idle2]
   \<and> listenersOf (snd (snd (fireEvent (newPaperEvent AddNodeEvt (addNodeAction nodeN3 60 40)) paperAdder)))
        AddNodeEvt = [adder, idle2, idle3]"
  using listeners_invoked_in_registration_order
    [of AddNodeEvt "addNodeAction nodeN3 60 40" paperAdder
       "\<lparr>eventType = AddNodeEvt, canPropagate = True, closure = None,
        hist = [Invoked adder, Call (AddListener AddNodeEvt (Listener 3 [])), Invoked idle2,
                LoopDone, RanDefault]\<rparr>"
       "paperAdder\<lparr>nodes := [(''n3'', \<lparr>n_id = ''n3'', n_coords = \<lparr>cx = 65, cy = 47\<rparr>,
            n_element = True, n_transform = Some \<lparr>cx = 60, cy = 40\<rparr>\<rparr>)],
          listeners := [(AddNodeEvt, [adder, idle2, idle3])],
          fired := [(AddNodeEvt, [Invoked adder, Call (AddListener AddNodeEvt (Listener 3 [])),
                Invoked idle2, LoopDone, RanDefault])]\<rparr>"]
  by (simp add: fireEvent_paperAdder)
     (simp add: paperAdder_eval listenersOf_def addNodeAction_def listener_defs Let_def)

section \<open>The coordinates the registries store\<close>

lemma set_update_subset: "set (AList.update k v al) \<subseteq> insert (k, v) (set al)"
  by (induction al) auto

lemma set_delete_subset: "set (AList.delete k al) \<subseteq> set al"
  by (auto simp: AList.delete_eq)

lemma storedCoords_listeners [simp]: "storedCoords (s\<lparr>listeners := ls\<rparr>) = storedCoords s"
  by (simp add: storedCoords_def)

lemma storedCoords_fired [simp]: "storedCoords (s\<lparr>fired := lg\<rparr>) = storedCoords s"
  by (simp add: storedCoords_def)

lemma storedCoords_activeItem [simp]: "storedCoords (s\<lparr>activeItem := x\<rparr>) = storedCoords s"
  by (simp add: storedCoords_def)

lemma within_addListener [simp]: "within A (addListener ty l s) = within A s"
  by (simp add: within_def addListener_def Let_def)

lemma within_removeListener [simp]: "within A (removeListener ty l s) = within A s"
  by (simp add: within_def removeListener_def split: option.splits)

lemma within_logEvent [simp]: "within A (logEvent e s) = within A s"
  by (simp add: within_def logEvent_def)

lemma within_iff:
  "within A s \<longleftrightarrow>
     (\<forall>kv \<in> set (nodes s). n_coords (snd kv) \<in> A) \<and> (\<forall>kv \<in> set (edges s). edgeCoords (snd kv) \<subseteq> A)"
  unfolding within_def storedCoords_def by blast

lemma within_update_node:
  assumes "within A s" and "n_coords n \<in> A"
  shows "within A (s\<lparr>nodes := AList.update k n (nodes s)\<rparr>)"
proof -
  have "\<forall>kv \<in> set (AList.update k n (nodes s)). n_coords (snd kv) \<in> A"
    using assms set_update_subset[of k n "nodes s"] unfolding within_iff by fastforce
  then show ?thesis using assms(1) by (simp add: within_iff)
qed

lemma within_update_edge:
  assumes "within A s" and "edgeCoords edge \<subseteq> A"
  shows "within A (s\<lparr>edges := AList.update k edge (edges s)\<rparr>)"
proof -
  have "\<forall>kv \<in> set (AList.update k edge (edges s)). edgeCoords (snd kv) \<subseteq> A"
  proof
    fix kv assume "kv \<in> set (AList.update k edge (edges s))"
    then have "kv = (k, edge) \<or> kv \<in> set (edges s)"
      using set_update_subset[of k edge "edges s"] by blast
    then show "edgeCoords (snd kv) \<subseteq> A" using assms unfolding within_iff by auto
  qed
  then show ?thesis using assms(1) by (simp add: within_iff)
qed

lemma within_delete_node: "within A s \<Longrightarrow> within A (s\<lparr>nodes := AList.delete k (nodes s)\<rparr>)"
  by (simp add: within_iff AList.delete_eq)

lemma within_delete_edge: "within A s \<Longrightarrow> within A (s\<lparr>edges := AList.delete k (edges s)\<rparr>)"
  by (simp add: within_iff AList.delete_eq)

lemma within_lookup_node:
  assumes "within A s" and "map_of (nodes s) k = Some n"
  shows "n_coords n \<in> A"
proof -
  have "(k, n) \<in> set (nodes s)" using assms(2) by (rule map_of_SomeD)
  then show ?thesis using assms(1) unfolding within_iff by fastforce
qed

lemma within_lookup_edge:
  assumes "within A s" and "map_of (edges s) k = Some edge"
  shows "edgeCoords edge \<subseteq> A"
proof -
  have "(k, edge) \<in> set (edges s)" using assms(2) by (rule map_of_SomeD)
  then show ?thesis using assms(1) unfolding within_iff by fastforce
qed

lemma withinInv_act:
  assumes "\<And>s. within A s \<Longrightarrow> within A (snd (f s))"
    and "withinInv A f None e s" and "act a e s = (err, e', s')"
  shows "withinInv A f err e' s'"
proof (cases a)
  case DefaultAction
  show ?thesis
  proof (cases "closure e")
    case None
    then show ?thesis using assms(2,3) DefaultAction
      by (auto simp: act_simps defaultAction_def noted_def withinInv_def)
  next
    case (Some g)
    then have g: "g = f" using assms(2) by (simp add: withinInv_def)
    have "within A (snd (f s))" using assms(1,2) by (simp add: withinInv_def)
    then show ?thesis using assms(3) DefaultAction Some g
      by (cases "f s"; cases "fst (f s)") (auto simp: act_simps defaultAction_def noted_def withinInv_def)
  qed
next
  case PreventDefault
  then show ?thesis using assms(2,3)
    by (auto simp: act_simps preventDefault_def noted_def withinInv_def)
next
  case StopPropagation
  then show ?thesis using assms(2,3)
    by (auto simp: act_simps stopPropagation_def noted_def withinInv_def)
next
  case (AddListener ty l)
  then show ?thesis using assms(2,3)
    by (auto simp: act_simps noted_def withinInv_def)
next
  case (RemoveListener ty l)
  then show ?thesis using assms(2,3)
    by (auto simp: act_simps noted_def withinInv_def)
qed

lemma fire_within:
  assumes "\<And>s. within A s \<Longrightarrow> within A (snd (f s))" and "within A s"
  shows "within A (snd (fire (newPaperEvent ty f) s))"
proof -
  let ?e = "newPaperEvent ty f"
  let ?n = "length (listenersOf s (eventType ?e))"
  obtain err1 e1 s1 where l: "forEachListener ?n 0 ?e s = (err1, e1, s1)"
    by (cases "forEachListener ?n 0 ?e s") auto
  have i0: "withinInv A f None ?e s" using assms(2) by (simp add: withinInv_def newPaperEvent_def)
  have inv: "withinInv A f err1 e1 s1"
  proof (rule forEachListener_invariant[where R = "withinInv A f", OF l i0])
    fix a e s err e' s'
    assume "withinInv A f None e s" "act a e s = (err, e', s')"
    then show "withinInv A f err e' s'"
      using withinInv_act[where A = A and f = f and e = e and s = s] assms(1) by blast
  next
    fix l e s
    assume "withinInv A f None e s"
    then show "withinInv A f None (noted (Invoked l) e) s" by (simp add: withinInv_def noted_def)
  qed
  show ?thesis
  proof (cases err1)
    case None
    have w1: "within A s1" using inv by (simp add: withinInv_def)
    have "within A (snd (snd (defaultAction (noted LoopDone e1) s1)))"
    proof (cases "closure e1")
      case None
      then show ?thesis using w1 by (simp add: defaultAction_def noted_def)
    next
      case (Some g)
      then have g: "g = f" using inv by (simp add: withinInv_def)
      have "within A (snd (f s1))" using assms(1) w1 by simp
      then show ?thesis using Some g
        by (cases "f s1"; cases "fst (f s1)") (auto simp: defaultAction_def noted_def)
    qed
    then show ?thesis using l None
      by (auto simp: fire_def fireEvent_def split: prod.splits)
  next
    case (Some x)
    then show ?thesis using l inv
      by (auto simp: fire_def fireEvent_def withinInv_def split: prod.splits)
  qed
qed

lemma within_gridSize_irrelevant: "within A (s\<lparr>activeItem := x\<rparr>) = within A s"
  by (simp add: within_def)

lemma addNode_within:
  assumes "within A s" and "in_coords node \<in> A"
  shows "within A (snd (addNode node s))"
proof -
  have "within A (snd (addNodeAction node rx ry s'))" if "within A s'" for s' rx ry
    using that assms(2)
    by (auto simp: addNodeAction_def Let_def intro!: within_update_node)
  then show ?thesis using assms(1) by (auto simp: addNode_def Let_def intro!: fire_within)
qed

lemma removeEdge_within:
  assumes "within A s"
  shows "within A (snd (removeEdge i s))"
proof -
  have "within A (snd (removeEdgeAction i s'))" if "within A s'" for s'
    using that by (auto simp: removeEdgeAction_def within_delete_edge split: option.splits)
  then show ?thesis using assms by (auto simp: removeEdge_def intro!: fire_within)
qed

lemma removeEdgesOf_within:
  "within A s \<Longrightarrow> within A (snd (removeEdgesOf i ks s))"
proof (induction ks arbitrary: s)
  case Nil
  then show ?case by simp
next
  case (Cons k ks)
  have r: "within A (snd (removeEdge k s))" using Cons.prems by (rule removeEdge_within)
  show ?case using Cons r
    by (cases "removeEdge k s"; cases "fst (removeEdge k s)") (auto split: option.splits)
qed

lemma removeNode_within:
  assumes "within A s"
  shows "within A (snd (removeNode i s))"
proof -
  have "within A (snd (removeNodeAction i s'))" if "within A s'" for s'
  proof -
    let ?r = "removeEdgesOf i (map fst (edges s')) s'"
    have "within A (snd ?r)" using that by (rule removeEdgesOf_within)
    then show ?thesis
      by (cases ?r; cases "fst ?r")
         (auto simp: removeNodeAction_def within_delete_node split: option.splits)
  qed
  then show ?thesis using assms by (auto simp: removeNode_def intro!: fire_within)
qed

lemma updateEdgeRoute_within:
  assumes "within A s"
  shows "within A (snd (updateEdgeRoute i s))"
  using assms by (auto simp: updateEdgeRoute_def split: option.splits intro!: fire_within)

lemma addEdge_within:
  assumes "within A s" and "inputCoords (AddEdge edge) \<subseteq> A"
  shows "within A (snd (addEdge edge s))"
proof -
  have "within A (snd (addEdgeAction edge s'))" if "within A s'" for s'
    unfolding addEdgeAction_def Let_def
    by (rule updateEdgeRoute_within, rule within_update_edge[OF that])
       (use assms(2) in \<open>simp add: edgeCoords_def\<close>)
  then show ?thesis using assms(1) by (auto simp: addEdge_def intro!: fire_within)
qed

lemma updateActiveItem_within:
  assumes "within A s"
  shows "within A (snd (updateActiveItem item s))"
  using assms
  by (auto simp: updateActiveItem_def Let_def within_gridSize_irrelevant intro!: fire_within)

lemma rerouteEdgesOf_within:
  "within A s \<Longrightarrow> within A (snd (rerouteEdgesOf i ks s))"
proof (induction ks arbitrary: s)
  case Nil
  then show ?case by simp
next
  case (Cons k ks)
  have r: "within A (snd (updateEdgeRoute k s))" using Cons.prems by (rule updateEdgeRoute_within)
  show ?case using Cons r
    by (cases "updateEdgeRoute k s"; cases "fst (updateEdgeRoute k s)") (auto split: option.splits)
qed

lemma setNodeCoords_within:
  assumes "within A s" and "c \<in> A"
  shows "within A (snd (setNodeCoords i c s))"
proof (cases "map_of (nodes s) i")
  case None
  then show ?thesis using assms(1) by (simp add: setNodeCoords_def)
next
  case (Some node)
  have "within A (snd (setNodeCoordsAction i node c s'))" if w: "within A s'" for s'
  proof -
    let ?s1 = "s'\<lparr>nodes := AList.update i (node\<lparr>n_coords := c\<rparr>) (nodes s')\<rparr>"
    have w1: "within A ?s1" by (rule within_update_node[OF w]) (simp add: assms(2))
    have w2: "within A (?s1\<lparr>nodes := AList.update i
                    (node\<lparr>n_coords := c, n_transform := Some c\<rparr>) (nodes ?s1)\<rparr>)"
      by (rule within_update_node[OF w1]) (simp add: assms(2))
    show ?thesis using w1 rerouteEdgesOf_within[OF w2]
      by (simp add: setNodeCoordsAction_def Let_def)
  qed
  then show ?thesis using assms(1) Some by (auto simp: setNodeCoords_def intro!: fire_within)
qed

lemma setEdgeSource_within:
  assumes "within A s" and "pointsOf p \<subseteq> A"
  shows "within A (snd (setEdgeSource i p s))"
proof (cases "map_of (edges s) i")
  case None
  then show ?thesis using assms(1) by (simp add: setEdgeSource_def)
next
  case (Some edge)
  have "edgeCoords edge \<subseteq> A" using assms(1) Some by (rule within_lookup_edge)
  then have "edgeCoords (edge\<lparr>e_source := p\<rparr>) \<subseteq> A" using assms(2) by (auto simp: edgeCoords_def)
  then have "within A (s\<lparr>edges := AList.update i (edge\<lparr>e_source := p\<rparr>) (edges s)\<rparr>)"
    by (rule within_update_edge[OF assms(1)])
  then show ?thesis using Some by (simp add: setEdgeSource_def updateEdgeRoute_within)
qed

lemma setEdgeTarget_within:
  assumes "within A s" and "pointsOf p \<subseteq> A"
  shows "within A (snd (setEdgeTarget i p s))"
proof (cases "map_of (edges s) i")
  case None
  then show ?thesis using assms(1) by (simp add: setEdgeTarget_def)
next
  case (Some edge)
  have "edgeCoords edge \<subseteq> A" using assms(1) Some by (rule within_lookup_edge)
  then have "edgeCoords (edge\<lparr>e_target := p\<rparr>) \<subseteq> A" using assms(2) by (auto simp: edgeCoords_def)
  then have "within A (s\<lparr>edges := AList.update i (edge\<lparr>e_target := p\<rparr>) (edges s)\<rparr>)"
    by (rule within_update_edge[OF assms(1)])
  then show ?thesis using Some by (simp add: setEdgeTarget_def updateEdgeRoute_within)
qed

lemma setEdgeCoords_within:
  assumes "within A s" and "set cs \<subseteq> A"
  shows "within A (snd (setEdgeCoords i cs s))"
proof (cases "map_of (edges s) i")
  case None
  then show ?thesis using assms(1) by (simp add: setEdgeCoords_def)
next
  case (Some edge)
  have "edgeCoords edge \<subseteq> A" using assms(1) Some by (rule within_lookup_edge)
  then have "edgeCoords (edge\<lparr>e_coords := cs\<rparr>) \<subseteq> A" using assms(2) by (auto simp: edgeCoords_def)
  then have "within A (s\<lparr>edges := AList.update i (edge\<lparr>e_coords := cs\<rparr>) (edges s)\<rparr>)"
    by (rule within_update_edge[OF assms(1)])
  then show ?thesis using Some by (simp add: setEdgeCoords_def updateEdgeRoute_within)
qed

lemma perform_within:
  assumes "within A s" and "inputCoords m \<subseteq> A"
  shows "within A (snd (perform m s))"
proof (cases m)
  case (AddNode node)
  then show ?thesis using assms by (simp add: addNode_within)
next
  case (RemoveNode i)
  then show ?thesis using assms by (simp add: removeNode_within)
next
  case (AddEdge edge)
  then show ?thesis using assms addEdge_within[of A s edge] by simp
next
  case (RemoveEdge i)
  then show ?thesis using assms by (simp add: removeEdge_within)
next
  case (UpdateActiveItem item)
  then show ?thesis using assms by (simp add: updateActiveItem_within)
next
  case (SetNodeCoords i c)
  then show ?thesis using assms by (simp add: setNodeCoords_within)
next
  case (SetEdgeSource i p)
  then show ?thesis using assms by (simp add: setEdgeSource_within)
next
  case (SetEdgeTarget i p)
  then show ?thesis using assms by (simp add: setEdgeTarget_within)
next
  case (SetEdgeCoords i cs)
  then show ?thesis using assms by (simp add: setEdgeCoords_within)
next
  case (RegisterListener ty l)
  then show ?thesis using assms by simp
next
  case (UnregisterListener ty l)
  then show ?thesis using assms by simp
qed

lemma run_within:
  "within A s \<Longrightarrow> \<forall>m \<in> set ms. inputCoords m \<subseteq> A \<Longrightarrow> within A (run ms s)"
proof (induction ms arbitrary: s)
  case Nil
  then show ?case by simp
next
  case (Cons m ms)
  have "within A (snd (perform m s))" using Cons.prems by (intro perform_within) auto
  then show ?case using Cons by simp
qed

text \<open>
  C1, as the spec states it, fails: on a paper with grid unit 20, \<open>addNode\<close> with the
  coordinates (65, 47) stores (65, 47), which is not a multiple of 20.
\<close>

theorem stored_coordinates_not_snapped_counterexample:
  "gridSize (run [AddNode nodeN3] (newPaper 20)) = 20
   \<and> storedCoords (run [AddNode nodeN3] (newPaper 20)) = {\<lparr>cx = 65, cy = 47\<rparr>}
   \<and> \<not> onGrid 20 \<lparr>cx = 65, cy = 47\<rparr>"
  by (simp add: operation_defs pipeline_defs nodeN3_def storedCoords_def onGrid_def Let_def)

text \<open>
  C1, amended: in every state reached from a new paper by any sequence of public
  operations, every coordinate stored in the node and edge registries is one of the
  values that the calls of \<open>addNode\<close>, \<open>addEdge\<close> and the setters were given,
  unchanged, whatever the grid unit (0 included); so the stored coordinates are
  multiples of the grid unit when all the values given are.
\<close>

theorem stored_coordinates_are_inputs:
  "storedCoords (run ms (newPaper unit)) \<subseteq> (\<Union>m \<in> set ms. inputCoords m)
   \<and> ((\<forall>m \<in> set ms. \<forall>c \<in> inputCoords m. onGrid unit c)
        \<longrightarrow> (\<forall>c \<in> storedCoords (run ms (newPaper unit)). onGrid unit c))"
proof (rule conjI)
  have "within (\<Union>m \<in> set ms. inputCoords m) (newPaper unit)"
    by (simp add: within_def storedCoords_def newPaper_def)
  then have "within (\<Union>m \<in> set ms. inputCoords m) (run ms (newPaper unit))"
    by (rule run_within) auto
  then show "storedCoords (run ms (newPaper unit)) \<subseteq> (\<Union>m \<in> set ms. inputCoords m)"
    by (simp add: within_def)
next
  show "(\<forall>m \<in> set ms. \<forall>c \<in> inputCoords m. onGrid unit c)
        \<longrightarrow> (\<forall>c \<in> storedCoords (run ms (newPaper unit)). onGrid unit c)"
  proof
    assume g: "\<forall>m \<in> set ms. \<forall>c \<in> inputCoords m. onGrid unit c"
    have "within {c. onGrid unit c} (newPaper unit)"
      by (simp add: within_def storedCoords_def newPaper_def)
    then have "within {c. onGrid unit c} (run ms (newPaper unit))"
      using g by (intro run_within) auto
    then show "\<forall>c \<in> storedCoords (run ms (newPaper unit)). onGrid unit c"
      unfolding within_def by blast
  qed
qed

theorem stored_coordinates_are_inputs_witness:
  "storedCoords (run coordCalls (newPaper 20))
     = {\<lparr>cx = 1, cy = 2\<rparr>, \<lparr>cx = 7, cy = 9\<rparr>, \<lparr>cx = 13, cy = 0\<rparr>}
   \<and> storedCoords (run coordCalls (newPaper 0))
     = {\<lparr>cx = 1, cy = 2\<rparr>, \<lparr>cx = 7, cy = 9\<rparr>, \<lparr>cx = 13, cy = 0\<rparr>}
   \<and> storedCoords (run gridCalls (newPaper 20)) = {\<lparr>cx = 40, cy = 100\<rparr>}
   \<and> onGrid 20 \<lparr>cx = 40, cy = 100\<rparr>"
  using stored_coordinates_are_inputs[of coordCalls 20]
    stored_coordinates_are_inputs[of coordCalls 0]
    stored_coordinates_are_inputs[of gridCalls 20]
  by (simp add: coordCalls_eval gridCalls_eval onGrid_def)

section \<open>The node registry under addNode and removeNode\<close>

lemma listenersOf_plain: "plain s \<Longrightarrow> listenersOf s ty = []"
  by (simp add: plain_def listenersOf_def)

lemma addNode_plain:
  assumes "plain s" and "in_element node"
  shows "plain (snd (addNode node s))
    \<and> (if hasNode s (in_id node)
        then addNode node s = (Some E_DUP_ID, s)
        else fst (addNode node s) = None
           \<and> fst ` set (nodes (snd (addNode node s))) = insert (in_id node) (fst ` set (nodes s)))"
proof (cases "hasNode s (in_id node)")
  case True
  then show ?thesis using assms(1) by (simp add: addNode_def)
next
  case False
  let ?n = "\<lambda>t. \<lparr>n_id = in_id node, n_coords = in_coords node, n_element = True, n_transform = t\<rparr>"
  have st: "set (AList.update k v al) \<subseteq> insert (k, v) (set al)" for k and v :: IPaperStoredNode and al
    by (induction al) auto
  have "\<forall>kv \<in> set (AList.update (in_id node) (?n t2) (AList.update (in_id node) (?n t1) (nodes s))).
          n_element (snd kv)" for t1 t2
    using assms(1) st[of "in_id node" "?n t2" "nodes s"] by (fastforce simp: plain_def)
  then show ?thesis using assms False listenersOf_plain[OF assms(1)]
    by (simp add: addNode_def Let_def fire_without_listeners addNodeAction_def plain_def
        distinct_update dom_update)
qed

lemma removeNode_plain:
  assumes "plain s"
  shows "plain (snd (removeNode i s))
    \<and> (if hasNode s i
        then fst (removeNode i s) = None
           \<and> fst ` set (nodes (snd (removeNode i s))) = fst ` set (nodes s) - {i}
        else removeNode i s = (Some E_NO_ID, s))"
proof (cases "map_of (nodes s) i")
  case None
  then show ?thesis using assms by (simp add: removeNode_def hasNode_def)
next
  case (Some n)
  then have "(i, n) \<in> set (nodes s)" by (rule map_of_SomeD)
  then have el: "n_element n" using assms by (fastforce simp: plain_def)
  have "fst ` set (AList.delete i (nodes s)) = fst ` set (nodes s) - {i}"
    by (auto simp: AList.delete_eq)
  then show ?thesis using assms Some el listenersOf_plain[OF assms]
    by (simp add: removeNode_def hasNode_def fire_without_listeners removeNodeAction_def plain_def
        distinct_delete) (auto simp: AList.delete_eq)
qed

lemma addNode_without_element:
  assumes "plain s" and "\<not> in_element node" and "\<not> hasNode s (in_id node)"
  shows "fst (addNode node s) = Some E_INV_ELEM \<and> hasNode (snd (addNode node s)) (in_id node)"
  using assms listenersOf_plain[OF assms(1)]
  by (simp add: addNode_def Let_def fire_without_listeners addNodeAction_def hasNode_def update_conv')

lemma node_calls_registry:
  assumes "plain s" and "\<forall>m \<in> set ms. isNodeCall m" and "failuresChangeNothing ms s"
  shows "fst ` set (nodes (run ms s)) = idsAddedNotRemoved ms s (fst ` set (nodes s))
    \<and> distinct (map fst (nodes (run ms s)))"
  using assms
proof (induction ms arbitrary: s)
  case Nil
  then show ?case by (simp add: plain_def)
next
  case (Cons m ms)
  have rest: "\<forall>m \<in> set ms. isNodeCall m" using Cons.prems(2) by simp
  show ?case
  proof (cases m)
    case (AddNode node)
    show ?thesis
    proof (cases "in_element node \<or> hasNode s (in_id node)")
      case True
      have p: "plain (snd (addNode node s))"
      proof (cases "in_element node")
        case True
        then show ?thesis using addNode_plain[OF Cons.prems(1)] by simp
      next
        case False
        then have "hasNode s (in_id node)" using True by simp
        then show ?thesis using Cons.prems(1) by (simp add: addNode_def)
      qed
      have f: "failuresChangeNothing ms (snd (addNode node s))"
        using Cons.prems(3) AddNode by (cases "addNode node s"; cases "fst (addNode node s)") auto
      have r: "if hasNode s (in_id node) then addNode node s = (Some E_DUP_ID, s)
        else fst (addNode node s) = None
           \<and> fst ` set (nodes (snd (addNode node s))) = insert (in_id node) (fst ` set (nodes s))"
      proof (cases "in_element node")
        case True
        then show ?thesis using addNode_plain[OF Cons.prems(1)] by simp
      next
        case False
        then have "hasNode s (in_id node)" using True by simp
        then show ?thesis by (simp add: addNode_def)
      qed
      from Cons.IH[OF p rest f] show ?thesis
        using r AddNode by (cases "addNode node s") (auto split: if_splits)
    next
      case False
      then have "fst (addNode node s) = Some E_INV_ELEM" "hasNode (snd (addNode node s)) (in_id node)"
        using addNode_without_element[OF Cons.prems(1), of node] by simp_all
      moreover have "\<not> hasNode s (in_id node)" using False by simp
      ultimately have "snd (addNode node s) \<noteq> s" by auto
      then show ?thesis using Cons.prems(3) AddNode \<open>fst (addNode node s) = Some E_INV_ELEM\<close>
        by (cases "addNode node s") auto
    qed
  next
    case (RemoveNode i)
    note a = removeNode_plain[OF Cons.prems(1), of i]
    have f: "failuresChangeNothing ms (snd (removeNode i s))"
      using Cons.prems(3) RemoveNode by (cases "removeNode i s"; cases "fst (removeNode i s)") auto
    from Cons.IH[OF conjunct1[OF a] rest f] show ?thesis
      using a RemoveNode by (cases "removeNode i s") (auto split: if_splits)
  qed (use Cons.prems(2) in simp_all)
qed

text \<open>
  What holds of a sequence of \<open>addNode\<close> and \<open>removeNode\<close> calls on a new paper in
  which every failed call leaves the paper as it was: the node registry holds exactly
  the ids that were added by a call that returned and not removed afterwards by a call
  that returned, each once.
\<close>

lemma node_registry_holds_added_not_removed:
  assumes "\<forall>m \<in> set ms. isNodeCall m" and "failuresChangeNothing ms (newPaper unit)"
  shows "fst ` set (nodes (run ms (newPaper unit))) = idsAddedNotRemoved ms (newPaper unit) {}
    \<and> distinct (map fst (nodes (run ms (newPaper unit))))"
proof -
  have "plain (newPaper unit)" by (simp add: plain_def newPaper_def)
  from node_calls_registry[OF this assms] show ?thesis by (simp add: newPaper_def)
qed

lemma node_registry_holds_added_not_removed_example:
  "failuresChangeNothing nodeCalls (newPaper 20)
   \<and> map fst (nodes (run nodeCalls (newPaper 20))) = [''n1'']
   \<and> idsAddedNotRemoved nodeCalls (newPaper 20) {} = {''n1''}
   \<and> fst (perform (AddNode nodeN3) (run [AddNode nodeN3] (newPaper 20))) = Some E_DUP_ID"
  using node_registry_holds_added_not_removed[of nodeCalls 20]
  by (simp add: nodeCalls_def nodeN3_def nodeN1_def operation_defs pipeline_defs Let_def)

text \<open>
  C8 at a failing input: the only call of the sequence is the \<open>addNode\<close> of a node
  whose handle has no element, on a new paper without listeners. The call fails with
  \<open>E_INV_ELEM\<close>, so no id was added successfully, and yet the registry holds the id of
  the failed call: the failed call did change the paper.
\<close>

theorem failed_addNode_leaves_id:
  "fst (perform (AddNode nodeNoElement) (newPaper 20)) = Some E_INV_ELEM
   \<and> idsAddedNotRemoved [AddNode nodeNoElement] (newPaper 20) {} = {}
   \<and> map fst (nodes (run [AddNode nodeNoElement] (newPaper 20))) = [''n2'']
   \<and> \<not> failuresChangeNothing [AddNode nodeNoElement] (newPaper 20)"
  by (simp add: nodeNoElement_def operation_defs pipeline_defs Let_def)

end
